theory Spec2Isabelle
  imports Main "HOL-Library.Word" "HOL-Library.Sublist" "HOL-Library.Multiset"
begin

unbundle bit_operations_syntax

section \<open>JavaScript values\<close>

text \<open>
  A JavaScript string is a sequence of UTF-16 code units and a Buffer a sequence of
  bytes. String literals of the source are written \<open>js ''...''\<close>.
\<close>

type_synonym jstring = "16 word list"
type_synonym bytes = "8 word list"

definition js :: "string \<Rightarrow> jstring" where
  "js s = map of_char s"

text \<open>\<^verbatim>\<open>s.includes(pat)\<close>: \<open>pat\<close> occurs in \<open>s\<close> as a contiguous run of code units.\<close>

fun str_includes :: "jstring \<Rightarrow> jstring \<Rightarrow> bool" where
  "str_includes [] pat = (pat = [])"
| "str_includes (c # cs) pat = (prefix pat (c # cs) \<or> str_includes cs pat)"

text \<open>
  \<^verbatim>\<open>s.trim()\<close> removes leading and trailing white space and line terminators
  (ECMAScript \<open>WhiteSpace\<close> and \<open>LineTerminator\<close>, all of which are single code units).
\<close>

definition isWhiteSpace :: "16 word \<Rightarrow> bool" where
  "isWhiteSpace c \<longleftrightarrow>
     c = 0x9 \<or> c = 0xA \<or> c = 0xB \<or> c = 0xC \<or> c = 0xD \<or> c = 0x20 \<or> c = 0xA0 \<or>
     c = 0x1680 \<or> (0x2000 \<le> c \<and> c \<le> 0x200A) \<or> c = 0x2028 \<or> c = 0x2029 \<or>
     c = 0x202F \<or> c = 0x205F \<or> c = 0x3000 \<or> c = 0xFEFF"

definition trim :: "jstring \<Rightarrow> jstring" where
  "trim s = rev (dropWhile isWhiteSpace (rev (dropWhile isWhiteSpace s)))"

text \<open>Template interpolation of a non-negative integer: its decimal digits.\<close>

fun showNat :: "nat \<Rightarrow> jstring" where
  "showNat n = (if n < 10 then [of_nat (48 + n)]
                else showNat (n div 10) @ [of_nat (48 + n mod 10)])"

declare showNat.simps [simp del]

text \<open>
  \<^verbatim>\<open>Buffer.from(s, 'utf8')\<close>: a surrogate pair becomes one four-byte sequence, a lone
  surrogate the replacement character U+FFFD.
\<close>

fun utf8 :: "jstring \<Rightarrow> bytes" where
  "utf8 [] = []"
| "utf8 [c] =
     (if c < 0x80 then [ucast c]
      else if c < 0x800 then [0xC0 OR ucast (drop_bit 6 c), 0x80 OR ucast (c AND 0x3F)]
      else if 0xD800 \<le> c \<and> c < 0xE000 then [0xEF, 0xBF, 0xBD]
      else [0xE0 OR ucast (drop_bit 12 c), 0x80 OR ucast (drop_bit 6 c AND 0x3F),
            0x80 OR ucast (c AND 0x3F)])"
| "utf8 (c # d # cs) =
     (if c < 0x80 then ucast c # utf8 (d # cs)
      else if c < 0x800 then
        [0xC0 OR ucast (drop_bit 6 c), 0x80 OR ucast (c AND 0x3F)] @ utf8 (d # cs)
      else if 0xD800 \<le> c \<and> c < 0xDC00 \<and> 0xDC00 \<le> d \<and> d < 0xE000 then
        (let cp = 0x10000 + push_bit 10 (ucast (c AND 0x3FF)) + ucast (d AND 0x3FF) :: 32 word
         in [0xF0 OR ucast (drop_bit 18 cp), 0x80 OR ucast (drop_bit 12 cp AND 0x3F),
             0x80 OR ucast (drop_bit 6 cp AND 0x3F), 0x80 OR ucast (cp AND 0x3F)]) @ utf8 cs
      else if 0xD800 \<le> c \<and> c < 0xE000 then [0xEF, 0xBF, 0xBD] @ utf8 (d # cs)
      else [0xE0 OR ucast (drop_bit 12 c), 0x80 OR ucast (drop_bit 6 c AND 0x3F),
            0x80 OR ucast (c AND 0x3F)] @ utf8 (d # cs))"

text \<open>\<^verbatim>\<open>Buffer.from(s, 'binary')\<close>: the low byte of every code unit.\<close>

definition latin1 :: "jstring \<Rightarrow> bytes" where
  "latin1 s = map ucast s"

text \<open>
  \<^verbatim>\<open>a || b\<close> on values that are a string or \<^verbatim>\<open>undefined\<close>: \<open>a\<close> when it is truthy
  (a non-empty string), else \<open>b\<close>.
\<close>

definition orElse :: "jstring option \<Rightarrow> jstring option \<Rightarrow> jstring option" where
  "orElse a b = (case a of Some s \<Rightarrow> if s \<noteq> [] then Some s else b | None \<Rightarrow> b)"

definition truthy :: "jstring option \<Rightarrow> bool" where
  "truthy a = (case a of Some s \<Rightarrow> s \<noteq> [] | None \<Rightarrow> False)"

definition orEmpty :: "jstring option \<Rightarrow> jstring" where
  "orEmpty a = (case a of Some s \<Rightarrow> s | None \<Rightarrow> [])"

subsection \<open>Plain objects used as dictionaries\<close>

text \<open>
  The own properties of an object literal \<^verbatim>\<open>{}\<close>, in creation order. A key is an
  array index when it is the canonical decimal form of an integer below \<open>2^32 - 1\<close>;
  enumeration (\<^verbatim>\<open>Object.entries\<close>) lists array-index keys first, in ascending numeric
  order, and the other keys after them in creation order.
\<close>

type_synonym 'v jsobject = "(jstring \<times> 'v) list"

definition isDigit :: "16 word \<Rightarrow> bool" where
  "isDigit c \<longleftrightarrow> 0x30 \<le> c \<and> c \<le> 0x39"

definition digitsValue :: "jstring \<Rightarrow> nat" where
  "digitsValue s = foldl (\<lambda>n c. 10 * n + (unat c - 48)) 0 s"

definition arrayIndex :: "jstring \<Rightarrow> nat option" where
  "arrayIndex s =
     (case s of
        [] \<Rightarrow> None
      | c # cs \<Rightarrow>
          if list_all isDigit s \<and> (c \<noteq> 0x30 \<or> cs = []) \<and> digitsValue s < 2 ^ 32 - 1
          then Some (digitsValue s) else None)"

definition indexKey :: "jstring \<times> 'v \<Rightarrow> nat" where
  "indexKey kv = (case arrayIndex (fst kv) of Some n \<Rightarrow> n | None \<Rightarrow> 0)"

definition Object_entries :: "'v jsobject \<Rightarrow> (jstring \<times> 'v) list" where
  "Object_entries obj =
     sort_key indexKey (filter (\<lambda>kv. arrayIndex (fst kv) \<noteq> None) obj) @
     filter (\<lambda>kv. arrayIndex (fst kv) = None) obj"

text \<open>
  \<^verbatim>\<open>obj[name] = value\<close> with a string value. The name \<^verbatim>\<open>__proto__\<close> reaches the
  inherited setter of \<^verbatim>\<open>Object.prototype\<close>, which ignores a value that is neither an
  object nor null: no own property is created.
\<close>

definition assign :: "jstring jsobject \<Rightarrow> jstring \<Rightarrow> jstring \<Rightarrow> jstring jsobject" where
  "assign obj name v =
     (if name = js ''__proto__'' then obj
      else if name \<in> fst ` set obj
        then map (\<lambda>(k, w). if k = name then (k, v) else (k, w)) obj
      else obj @ [(name, v)])"

subsection \<open>JSON values\<close>

text \<open>
  The result of \<^verbatim>\<open>JSON.parse\<close> and the argument of \<^verbatim>\<open>JSON.stringify\<close>. Numbers are
  never inspected by the handler; their type is left open.
\<close>

datatype 'n json =
    JNull
  | JBool bool
  | JNum 'n
  | JStr jstring
  | JArr "'n json list"
  | JObj "(jstring \<times> 'n json) list"

datatype builtinFailure = DeleteOnNull | BufferFromUndefined

text \<open>
  \<^verbatim>\<open>delete body[key]\<close>: removes the own property of an object, does nothing on an array
  (for a key that is not an index) or a primitive, and throws a TypeError on null.
\<close>

fun deleteProperty :: "'n json \<Rightarrow> jstring \<Rightarrow> builtinFailure + 'n json" where
  "deleteProperty JNull key = Inl DeleteOnNull"
| "deleteProperty (JObj kvs) key = Inr (JObj (filter (\<lambda>kv. fst kv \<noteq> key) kvs))"
| "deleteProperty v key = Inr v"

section \<open>Requests, responses and the runtime\<close>

record 'n response =
  statusCode :: nat
  headers :: "(jstring \<times> jstring) list"
  body :: "'n json"

text \<open>
  The \<open>body\<close> of a response is the value handed to \<^verbatim>\<open>JSON.stringify\<close>.
\<close>

definition jsonHeaders :: "(jstring \<times> jstring) list" where
  "jsonHeaders = [(js ''Content-Type'', js ''application/json''),
                  (js ''Access-Control-Allow-Origin'', js ''*'')]"

datatype 'n payload = JsonText "'n json" | RawBuffer bytes

record 'n request =
  url :: jstring
  reqMethod :: jstring
  reqHeaders :: "(jstring \<times> jstring) list"
  reqBody :: "'n payload"

text \<open>
  What \<^verbatim>\<open>fetch\<close> resolves to: \<open>contentType\<close> is \<^verbatim>\<open>headers.get('content-type')\<close>,
  \<open>bodyText\<close> what \<^verbatim>\<open>text()\<close> yields, \<open>bodyJson\<close> what \<^verbatim>\<open>json()\<close> yields (\<open>Inl\<close> the
  message of the error it rejects with).
\<close>

record 'n fetchResponse =
  status :: nat
  contentType :: "jstring option"
  bodyText :: jstring
  bodyJson :: "jstring + 'n json"

definition ok :: "'n fetchResponse \<Rightarrow> bool" where
  "ok resp \<longleftrightarrow> 200 \<le> status resp \<and> status resp \<le> 299"

text \<open>
  Events of the streaming multipart parser. A file stream is identified by a number;
  \<open>File\<close> announces it with field name, filename (possibly undefined) and MIME type,
  \<open>Data\<close>, \<open>End\<close> and \<open>FileError\<close> are the events of that stream, \<open>Finish\<close> and
  \<open>ParseError\<close> those of the parser itself.
\<close>

datatype pevent =
    Field jstring jstring
  | File nat jstring "jstring option" jstring
  | Data nat bytes
  | End nat
  | FileError nat jstring
  | Finish
  | ParseError jstring

text \<open>
  The collaborators outside the handler: \<^verbatim>\<open>JSON.parse\<close>, \<^verbatim>\<open>fetch\<close>, the parser
  (its constructor may throw; otherwise it maps the written bytes to the events it
  emits), base64 decoding, the clock and random source behind the boundary (indexed by
  the number of earlier forwards), and the wording of the engine's own TypeErrors.
\<close>

record 'n runtime =
  jsonParse :: "jstring \<Rightarrow> jstring + 'n json"
  fetch :: "'n request \<Rightarrow> jstring + 'n fetchResponse"
  busboyNew :: "(jstring \<times> jstring) list \<Rightarrow> jstring + (bytes \<Rightarrow> pevent list)"
  fromBase64 :: "jstring \<Rightarrow> bytes"
  dateNow :: "nat \<Rightarrow> nat"
  randomTag :: "nat \<Rightarrow> jstring"
  builtinMessage :: "builtinFailure \<Rightarrow> jstring"

record mailerConfig =
  MAILER_BASE_URL :: jstring
  MAILER_FORM_ID :: jstring
  MAILER_FORM_API_KEY :: jstring

text \<open>A promise is settled once: resolved with a response or rejected with an error.\<close>

datatype 'n settled = Resolved "'n response" | Rejected jstring

section \<open>Response normalisation\<close>

definition invalidResponseMessage :: "nat \<Rightarrow> jstring" where
  "invalidResponseMessage st =
     js ''Mailer API returned invalid response ('' @ showNat st @ js ''). Check mailer logs.''"

text \<open>Lines 270-322 of the handler: the response handling of \<^verbatim>\<open>forwardRequest\<close>.\<close>

definition forwardResponse :: "'n fetchResponse \<Rightarrow> 'n settled" where
  "forwardResponse mailerResponse =
     (let responseContentType = orEmpty (orElse (contentType mailerResponse) (Some []))
      in if str_includes responseContentType (js ''application/json'') then
           (case bodyJson mailerResponse of
              Inl err \<Rightarrow> Rejected err
            | Inr mailerJson \<Rightarrow>
                if \<not> ok mailerResponse then
                  Resolved \<lparr>statusCode = status mailerResponse, headers = jsonHeaders,
                            body = mailerJson\<rparr>
                else
                  Resolved \<lparr>statusCode = 200, headers = jsonHeaders,
                            body = JObj [(js ''success'', JBool True),
                                         (js ''data'', mailerJson)]\<rparr>)
         else
           Resolved \<lparr>statusCode = (if status mailerResponse = 0 then 500
                                    else status mailerResponse),
                     headers = jsonHeaders,
                     body = JObj [(js ''success'', JBool False),
                                  (js ''error'',
                                   JStr (invalidResponseMessage (status mailerResponse))),
                                  (js ''details'',
                                   JStr (if str_includes responseContentType (js ''html'')
                                         then js ''Received HTML instead of JSON''
                                         else js ''Content-Type: '' @ responseContentType))]\<rparr>)"

text \<open>Lines 384-435: the response handling of \<^verbatim>\<open>handleJsonRequest\<close>.\<close>

definition jsonResponse :: "'n fetchResponse \<Rightarrow> 'n settled" where
  "jsonResponse mailerResponse =
     (let responseContentType = orEmpty (orElse (contentType mailerResponse) (Some []))
      in if str_includes responseContentType (js ''application/json'') then
           (case bodyJson mailerResponse of
              Inl err \<Rightarrow> Rejected err
            | Inr mailerJson \<Rightarrow>
                if \<not> ok mailerResponse then
                  Resolved \<lparr>statusCode = status mailerResponse, headers = jsonHeaders,
                            body = mailerJson\<rparr>
                else
                  Resolved \<lparr>statusCode = 200, headers = jsonHeaders,
                            body = JObj [(js ''success'', JBool True),
                                         (js ''data'', mailerJson)]\<rparr>)
         else
           Resolved \<lparr>statusCode = (if status mailerResponse = 0 then 500
                                    else status mailerResponse),
                     headers = jsonHeaders,
                     body = JObj [(js ''success'', JBool False),
                                  (js ''error'',
                                   JStr (invalidResponseMessage (status mailerResponse))),
                                  (js ''details'',
                                   JStr (if str_includes responseContentType (js ''html'')
                                         then js ''Received HTML instead of JSON - check mailer URL''
                                         else js ''Content-Type: '' @ responseContentType))]\<rparr>)"

section \<open>The multipart path\<close>

subsection \<open>Re-encoding\<close>

definition CRLF :: jstring where
  "CRLF = [0xD, 0xA]"

definition DQ :: jstring where
  "DQ = [0x22]"

text \<open>An element of the \<^verbatim>\<open>parts\<close> array: a string, or a Buffer taken as it is.\<close>

datatype segment = Str jstring | Buf bytes

fun toBuffer :: "segment \<Rightarrow> bytes" where
  "toBuffer (Str s) = utf8 s"
| "toBuffer (Buf b) = b"

text \<open>The objects pushed on \<^verbatim>\<open>files\<close>: name, filename, type, buffer, size.\<close>

record fileEntry =
  f_name :: jstring
  f_filename :: jstring
  f_type :: jstring
  f_buffer :: bytes
  f_size :: nat

definition formIdSegments :: "jstring \<Rightarrow> jstring \<Rightarrow> segment list" where
  "formIdSegments boundary formIdValue =
     [Str (js ''--'' @ boundary @ CRLF),
      Str (js ''Content-Disposition: form-data; name='' @ DQ @ js ''formId'' @ DQ @ CRLF),
      Str CRLF,
      Str formIdValue,
      Str CRLF]"

definition fieldSegments :: "jstring \<Rightarrow> jstring \<times> jstring \<Rightarrow> segment list" where
  "fieldSegments boundary kv =
     [Str (js ''--'' @ boundary @ CRLF),
      Str (js ''Content-Disposition: form-data; name='' @ DQ @ fst kv @ DQ @ CRLF),
      Str CRLF,
      Str (snd kv),
      Str CRLF]"

definition fileSegments :: "jstring \<Rightarrow> fileEntry \<Rightarrow> segment list" where
  "fileSegments boundary file =
     [Str (js ''--'' @ boundary @ CRLF),
      Str (js ''Content-Disposition: form-data; name='' @ DQ @ f_name file @ DQ @
           js ''; filename='' @ DQ @ f_filename file @ DQ @ CRLF),
      Str (js ''Content-Type: '' @ f_type file @ CRLF),
      Str CRLF,
      Buf (f_buffer file),
      Str CRLF]"

text \<open>The condition of the loop over \<^verbatim>\<open>Object.entries(fields)\<close> (line 221).\<close>

definition forwardable :: "jstring \<times> jstring \<Rightarrow> bool" where
  "forwardable kv \<longleftrightarrow>
     fst kv \<noteq> js ''formId'' \<and> fst kv \<noteq> js ''form-name'' \<and> fst kv \<noteq> js ''bot-field''"

definition buildParts ::
  "jstring \<Rightarrow> jstring \<Rightarrow> jstring jsobject \<Rightarrow> fileEntry list \<Rightarrow> segment list" where
  "buildParts boundary formIdValue flds fls =
     formIdSegments boundary formIdValue @
     concat (map (fieldSegments boundary) (filter forwardable (Object_entries flds))) @
     concat (map (fileSegments boundary) fls) @
     [Str (js ''--'' @ boundary @ js ''--'' @ CRLF)]"

definition multipartBody ::
  "jstring \<Rightarrow> jstring \<Rightarrow> jstring jsobject \<Rightarrow> fileEntry list \<Rightarrow> bytes" where
  "multipartBody boundary formIdValue flds fls =
     concat (map toBuffer (buildParts boundary formIdValue flds fls))"

definition makeBoundary :: "'n runtime \<Rightarrow> nat \<Rightarrow> jstring" where
  "makeBoundary rt k = js ''----formdata-'' @ showNat (dateNow rt k) @ js ''-'' @ randomTag rt k"

definition uploadRequest :: "mailerConfig \<Rightarrow> jstring \<Rightarrow> bytes \<Rightarrow> 'n request" where
  "uploadRequest config boundary multipartBody' =
     \<lparr>url = MAILER_BASE_URL config @ js ''/form-submissions-upload'',
      reqMethod = js ''POST'',
      reqHeaders = [(js ''Authorization'', js ''Bearer '' @ MAILER_FORM_API_KEY config),
                    (js ''Content-Type'', js ''multipart/form-data; boundary='' @ boundary)],
      reqBody = RawBuffer multipartBody'\<rparr>"

subsection \<open>Accumulating the parser's events\<close>

text \<open>
  The variables of one \<^verbatim>\<open>handleMultipartRequest\<close> call (\<open>fieldsObj\<close> is the object
  \<^verbatim>\<open>fields\<close>). \<open>streams\<close> holds, for every
  file stream that got listeners, the variables its listeners close over; \<open>requests\<close>
  the calls of \<^verbatim>\<open>fetch\<close> so far; \<open>outcome\<close> the state of the returned promise;
  \<open>errorLog\<close> what \<^verbatim>\<open>logError\<close> printed; \<open>crashed\<close> that an \<^verbatim>\<open>error\<close> event found no
  listener (an uncaught exception, which ends the process).
\<close>

record fileStream =
  s_name :: jstring
  s_filename :: jstring
  s_mimeType :: jstring
  s_chunks :: "bytes list"

datatype logEntry = FileStreamFailed jstring jstring | ParsingFailed jstring

record 'n mstate =
  fieldsObj :: "jstring jsobject"
  files :: "fileEntry list"
  fieldsProcessed :: bool
  pendingFiles :: nat
  completedFiles :: nat
  streams :: "(nat \<times> fileStream) list"
  requests :: "'n request list"
  outcome :: "'n settled option"
  errorLog :: "logEntry list"
  crashed :: bool

definition initial :: "'n mstate" where
  "initial = \<lparr>fieldsObj = [], files = [], fieldsProcessed = False, pendingFiles = 0,
              completedFiles = 0, streams = [], requests = [], outcome = None,
              errorLog = [], crashed = False\<rparr>"

definition settle :: "'n settled \<Rightarrow> 'n mstate \<Rightarrow> 'n mstate" where
  "settle r s = (case outcome s of None \<Rightarrow> s\<lparr>outcome := Some r\<rparr> | Some _ \<Rightarrow> s)"

definition forwardRequest :: "mailerConfig \<Rightarrow> 'n runtime \<Rightarrow> 'n mstate \<Rightarrow> 'n mstate" where
  "forwardRequest config rt s =
     (if MAILER_FORM_ID config = [] then
        settle (Rejected (js ''MAILER_FORM_ID environment variable is not set'')) s
      else
        let formIdValue = trim (MAILER_FORM_ID config) in
        if formIdValue = [] then
          settle (Rejected (js ''MAILER_FORM_ID is empty or invalid'')) s
        else
          let boundary = makeBoundary rt (length (requests s));
              req = uploadRequest config boundary
                      (multipartBody boundary formIdValue (fieldsObj s) (files s));
              s' = s\<lparr>requests := requests s @ [req]\<rparr>
          in case fetch rt req of
               Inl err \<Rightarrow> settle (Rejected err) s'
             | Inr mailerResponse \<Rightarrow> settle (forwardResponse mailerResponse) s')"

definition checkAndForward :: "mailerConfig \<Rightarrow> 'n runtime \<Rightarrow> 'n mstate \<Rightarrow> 'n mstate" where
  "checkAndForward config rt s =
     (if fieldsProcessed s \<and> (pendingFiles s = 0 \<or> completedFiles s = pendingFiles s)
      then forwardRequest config rt s else s)"

text \<open>\<^verbatim>\<open>!filename || filename.trim() === ''\<close>\<close>

definition noFilename :: "jstring option \<Rightarrow> bool" where
  "noFilename filename = (case filename of None \<Rightarrow> True | Some f \<Rightarrow> f = [] \<or> trim f = [])"

definition pushChunk :: "nat \<Rightarrow> bytes \<Rightarrow> (nat \<times> fileStream) list \<Rightarrow> (nat \<times> fileStream) list" where
  "pushChunk i chunk sts =
     map (\<lambda>(j, st). if j = i then (j, st\<lparr>s_chunks := s_chunks st @ [chunk]\<rparr>) else (j, st)) sts"

text \<open>One event reaching the listeners registered on the parser and on the file streams.\<close>

fun on :: "mailerConfig \<Rightarrow> 'n runtime \<Rightarrow> 'n mstate \<Rightarrow> pevent \<Rightarrow> 'n mstate" where
  "on config rt s (Field name v) =
     (if name = js ''form-name'' \<or> name = js ''bot-field'' then s
      else s\<lparr>fieldsObj := assign (fieldsObj s) name v\<rparr>)"
| "on config rt s (File i name filename mimeType) =
     (if noFilename filename then s
      else s\<lparr>streams := streams s @
                 [(i, \<lparr>s_name = name, s_filename = orEmpty filename,
                       s_mimeType = mimeType, s_chunks = []\<rparr>)],
             pendingFiles := pendingFiles s + 1\<rparr>)"
| "on config rt s (Data i chunk) = s\<lparr>streams := pushChunk i chunk (streams s)\<rparr>"
| "on config rt s (End i) =
     (case map_of (streams s) i of
        None \<Rightarrow> s
      | Some st \<Rightarrow>
          let buffer = concat (s_chunks st);
              s1 = (if length buffer > 0
                    then s\<lparr>files := files s @
                             [\<lparr>f_name = s_name st, f_filename = s_filename st,
                               f_type = s_mimeType st, f_buffer = buffer,
                               f_size = length buffer\<rparr>]\<rparr>
                    else s);
              s2 = s1\<lparr>completedFiles := completedFiles s1 + 1\<rparr>
          in checkAndForward config rt s2)"
| "on config rt s (FileError i err) =
     (case map_of (streams s) i of
        None \<Rightarrow> s\<lparr>crashed := True\<rparr>
      | Some st \<Rightarrow> s\<lparr>errorLog := errorLog s @ [FileStreamFailed (s_filename st) err]\<rparr>)"
| "on config rt s Finish =
     (let s1 = s\<lparr>fieldsProcessed := True\<rparr>
      in if pendingFiles s1 = 0 then forwardRequest config rt s1
         else checkAndForward config rt s1)"
| "on config rt s (ParseError err) =
     settle (Rejected err) (s\<lparr>errorLog := errorLog s @ [ParsingFailed err]\<rparr>)"

definition deliver :: "mailerConfig \<Rightarrow> 'n runtime \<Rightarrow> 'n mstate \<Rightarrow> pevent \<Rightarrow> 'n mstate" where
  "deliver config rt s e = (if crashed s then s else on config rt s e)"

definition run :: "mailerConfig \<Rightarrow> 'n runtime \<Rightarrow> pevent list \<Rightarrow> 'n mstate" where
  "run config rt es = foldl (deliver config rt) initial es"

subsection \<open>The handlers\<close>

record lambdaEvent =
  httpMethod :: jstring
  evHeaders :: "(jstring \<times> jstring) list"
  evBody :: "jstring option"
  isBase64Encoded :: bool

text \<open>
  \<^verbatim>\<open>handleMultipartRequest\<close>: the promise's outcome (\<open>None\<close> when it never settles) and
  the calls of \<^verbatim>\<open>fetch\<close> made.
\<close>

definition handleMultipartRequest ::
  "mailerConfig \<Rightarrow> 'n runtime \<Rightarrow> lambdaEvent \<Rightarrow> 'n settled option \<times> 'n request list" where
  "handleMultipartRequest config rt event =
     (case busboyNew rt (evHeaders event) of
        Inl err \<Rightarrow> (Some (Rejected err), [])
      | Inr busboy \<Rightarrow>
          if isBase64Encoded event \<and> evBody event = None then
            (Some (Rejected (builtinMessage rt BufferFromUndefined)), [])
          else
            let bodyBuffer = (if isBase64Encoded event then fromBase64 rt (orEmpty (evBody event))
                              else latin1 (orEmpty (orElse (evBody event) (Some []))));
                s = run config rt (busboy bodyBuffer)
            in (outcome s, requests s))"

definition handleJsonRequest ::
  "mailerConfig \<Rightarrow> 'n runtime \<Rightarrow> lambdaEvent \<Rightarrow> 'n settled option \<times> 'n request list" where
  "handleJsonRequest config rt event =
     (case jsonParse rt (orEmpty (orElse (evBody event) (Some (js ''{}'')))) of
        Inl err \<Rightarrow> (Some (Rejected err), [])
      | Inr parsed \<Rightarrow>
          (case deleteProperty parsed (js ''form-name'') of
             Inl f \<Rightarrow> (Some (Rejected (builtinMessage rt f)), [])
           | Inr body1 \<Rightarrow>
               (case deleteProperty body1 (js ''bot-field'') of
                  Inl f \<Rightarrow> (Some (Rejected (builtinMessage rt f)), [])
                | Inr body2 \<Rightarrow>
                    let req = \<lparr>url = MAILER_BASE_URL config @ js ''/form-submissions'',
                               reqMethod = js ''POST'',
                               reqHeaders =
                                 [(js ''Authorization'',
                                   js ''Bearer '' @ MAILER_FORM_API_KEY config),
                                  (js ''Content-Type'', js ''application/json'')],
                               reqBody = JsonText
                                 (JObj [(js ''formId'', JStr (MAILER_FORM_ID config)),
                                        (js ''formData'', body2)])\<rparr>
                    in case fetch rt req of
                         Inl err \<Rightarrow> (Some (Rejected err), [req])
                       | Inr mailerResponse \<Rightarrow> (Some (jsonResponse mailerResponse), [req]))))"

text \<open>
  \<^verbatim>\<open>createMailerHandler(config)\<close>: the explicit configuration, the environment
  variables it falls back to, and the handler it returns. The handler's result is the
  response (\<open>None\<close> when the handler never returns) and the calls of \<^verbatim>\<open>fetch\<close> made.
\<close>

record handlerConfig =
  baseUrl :: "jstring option"
  formId :: "jstring option"
  apiKey :: "jstring option"

record processEnv =
  env_MAILER_BASE_URL :: "jstring option"
  env_MAILER_FORM_ID :: "jstring option"
  env_MAILER_FORM_API_KEY :: "jstring option"

definition missingConfigurationMessage :: jstring where
  "missingConfigurationMessage =
     js ''Missing required configuration: baseUrl, formId, and apiKey must be provided either via createMailerHandler() or environment variables (MAILER_BASE_URL, MAILER_FORM_ID, MAILER_FORM_API_KEY)''"

definition errorResponse :: "jstring \<Rightarrow> 'n response" where
  "errorResponse message =
     \<lparr>statusCode = 500, headers = jsonHeaders,
      body = JObj [(js ''success'', JBool False),
                   (js ''error'', JStr (if message \<noteq> [] then message
                                        else js ''Internal server error''))]\<rparr>"

text \<open>Lines 67-68: the request's content type and the test that picks the path.\<close>

definition requestContentType :: "lambdaEvent \<Rightarrow> jstring" where
  "requestContentType event =
     orEmpty (orElse (orElse (map_of (evHeaders event) (js ''content-type''))
                             (map_of (evHeaders event) (js ''Content-Type'')))
                     (Some []))"

definition isMultipart :: "lambdaEvent \<Rightarrow> bool" where
  "isMultipart event = str_includes (requestContentType event) (js ''multipart/form-data'')"

text \<open>Lines 28-30: each setting is the explicit one or else the environment's.\<close>

definition effectiveConfig :: "handlerConfig \<Rightarrow> processEnv \<Rightarrow> mailerConfig" where
  "effectiveConfig config env =
     \<lparr>MAILER_BASE_URL = orEmpty (orElse (baseUrl config) (env_MAILER_BASE_URL env)),
      MAILER_FORM_ID = orEmpty (orElse (formId config) (env_MAILER_FORM_ID env)),
      MAILER_FORM_API_KEY = orEmpty (orElse (apiKey config) (env_MAILER_FORM_API_KEY env))\<rparr>"

text \<open>
  \<^verbatim>\<open>return await ...\<close> inside \<^verbatim>\<open>try\<close>: a resolved promise gives its response, a rejected
  one the response of the \<^verbatim>\<open>catch\<close> block, a promise that never settles no response.
\<close>

definition awaitResult :: "'n settled option \<Rightarrow> 'n response option" where
  "awaitResult out =
     (case out of
        None \<Rightarrow> None
      | Some (Resolved r) \<Rightarrow> Some r
      | Some (Rejected message) \<Rightarrow> Some (errorResponse message))"

definition createMailerHandler ::
  "handlerConfig \<Rightarrow> processEnv \<Rightarrow> 'n runtime \<Rightarrow> lambdaEvent \<Rightarrow>
   'n response option \<times> 'n request list" where
  "createMailerHandler config env rt event =
     (if httpMethod event \<noteq> js ''POST'' then
        (Some \<lparr>statusCode = 405, headers = jsonHeaders,
               body = JObj [(js ''error'', JStr (js ''Method not allowed''))]\<rparr>, [])
      else if \<not> truthy (orElse (baseUrl config) (env_MAILER_BASE_URL env)) \<or>
              \<not> truthy (orElse (formId config) (env_MAILER_FORM_ID env)) \<or>
              \<not> truthy (orElse (apiKey config) (env_MAILER_FORM_API_KEY env)) then
        (Some \<lparr>statusCode = 500, headers = jsonHeaders,
               body = JObj [(js ''success'', JBool False),
                            (js ''error'', JStr missingConfigurationMessage)]\<rparr>, [])
      else
        let result = (if isMultipart event
                      then handleMultipartRequest (effectiveConfig config env) rt event
                      else handleJsonRequest (effectiveConfig config env) rt event)
        in (awaitResult (fst result), snd result))"

section \<open>The parser's contract and what a trace of events amounts to\<close>

text \<open>
  The streams a trace announces, those that get listeners (a usable filename), those
  that are closed (ended or failed), and those that ended.
\<close>

fun announces :: "pevent \<Rightarrow> nat list" where
  "announces (File i name filename mimeType) = [i]"
| "announces e = []"

fun listens :: "pevent \<Rightarrow> nat list" where
  "listens (File i name filename mimeType) = (if noFilename filename then [] else [i])"
| "listens e = []"

fun closes :: "pevent \<Rightarrow> nat list" where
  "closes (End i) = [i]"
| "closes (FileError i err) = [i]"
| "closes e = []"

fun ends :: "pevent \<Rightarrow> nat list" where
  "ends (End i) = [i]"
| "ends e = []"

fun terminal :: "pevent \<Rightarrow> bool" where
  "terminal Finish = True"
| "terminal (ParseError err) = True"
| "terminal e = False"

fun parseErrors :: "pevent \<Rightarrow> jstring list" where
  "parseErrors (ParseError err) = [err]"
| "parseErrors e = []"

definition announcedIds :: "pevent list \<Rightarrow> nat list" where
  "announcedIds es = concat (map announces es)"

definition listenedIds :: "pevent list \<Rightarrow> nat list" where
  "listenedIds es = concat (map listens es)"

definition closedIds :: "pevent list \<Rightarrow> nat list" where
  "closedIds es = concat (map closes es)"

definition endedIds :: "pevent list \<Rightarrow> nat list" where
  "endedIds es = concat (map ends es)"

text \<open>
  What the parser and its streams may emit next, given what they have emitted. The
  parser emits fields and files until it finishes or fails, and nothing after; stream
  numbers are not reused; a stream emits data until it ends or fails, and nothing after.
  A stream the handler skipped has no \<open>error\<close> listener, and an error there is an
  uncaught exception outside the handler: such traces are left out.
\<close>

definition parserOpen :: "pevent list \<Rightarrow> bool" where
  "parserOpen es \<longleftrightarrow> filter terminal es = []"

definition live :: "pevent list \<Rightarrow> nat \<Rightarrow> bool" where
  "live es i \<longleftrightarrow> i \<in> set (announcedIds es) \<and> i \<notin> set (closedIds es)"

fun admissible :: "pevent list \<Rightarrow> pevent \<Rightarrow> bool" where
  "admissible h (Field name v) = parserOpen h"
| "admissible h (File i name filename mimeType) = (parserOpen h \<and> i \<notin> set (announcedIds h))"
| "admissible h (Data i chunk) = live h i"
| "admissible h (End i) = live h i"
| "admissible h (FileError i err) = (live h i \<and> i \<in> set (listenedIds h))"
| "admissible h Finish = parserOpen h"
| "admissible h (ParseError err) = parserOpen h"

fun wellFormedFrom :: "pevent list \<Rightarrow> pevent list \<Rightarrow> bool" where
  "wellFormedFrom h [] = True"
| "wellFormedFrom h (e # es) = (admissible h e \<and> wellFormedFrom (h @ [e]) es)"

definition wellFormed :: "pevent list \<Rightarrow> bool" where
  "wellFormed es = wellFormedFrom [] es"

text \<open>
  The counts of a trace: the streams opened with a usable filename, the ones among them
  that ended, and whether the Submission is complete.
\<close>

definition opened :: "pevent list \<Rightarrow> nat" where
  "opened es = length (listenedIds es)"

definition drainedIds :: "pevent list \<Rightarrow> nat list" where
  "drainedIds es = filter (\<lambda>i. i \<in> set (listenedIds es)) (endedIds es)"

definition drained :: "pevent list \<Rightarrow> nat" where
  "drained es = length (drainedIds es)"

definition ready :: "pevent list \<Rightarrow> bool" where
  "ready es \<longleftrightarrow> Finish \<in> set es \<and> drained es = opened es"

text \<open>The rejection a trace leaves when the parser failed, if it did.\<close>

definition failures :: "pevent list \<Rightarrow> jstring list" where
  "failures es = concat (map parseErrors es)"

definition parseFailure :: "pevent list \<Rightarrow> 'n settled option" where
  "parseFailure es = (case failures es of [] \<Rightarrow> None | err # _ \<Rightarrow> Some (Rejected err))"

text \<open>
  The state of the handler after a trace, told from the trace: its counters and flags,
  the streams with listeners, and, once the trace is complete, the state in which
  \<^verbatim>\<open>forwardRequest\<close> ran once on it; until then nothing was sent.
\<close>

definition unsettled :: "'n mstate \<Rightarrow> 'n mstate" where
  "unsettled s = s\<lparr>requests := [], outcome := None\<rparr>"

definition tracks :: "mailerConfig \<Rightarrow> 'n runtime \<Rightarrow> pevent list \<Rightarrow> 'n mstate \<Rightarrow> bool" where
  "tracks config rt es s \<longleftrightarrow>
     \<not> crashed s \<and>
     fieldsProcessed s = (Finish \<in> set es) \<and>
     pendingFiles s = opened es \<and>
     completedFiles s = drained es \<and>
     map fst (streams s) = listenedIds es \<and>
     (if ready es then s = forwardRequest config rt (unsettled s)
      else requests s = [] \<and> outcome s = parseFailure es)"

subsection \<open>The fields and files of a trace\<close>

text \<open>
  What the handler is to hold after a trace: the accepted fields in first-seen order
  with their last values, and an entry for every listened stream that ended with at
  least one byte, in the order of the \<open>End\<close> events.
\<close>

fun fieldOf :: "pevent \<Rightarrow> (jstring \<times> jstring) list" where
  "fieldOf (Field name v) =
     (if name = js ''form-name'' \<or> name = js ''bot-field'' then [] else [(name, v)])"
| "fieldOf e = []"

definition acceptedFields :: "pevent list \<Rightarrow> (jstring \<times> jstring) list" where
  "acceptedFields es = concat (map fieldOf es)"

fun keepFirst :: "'a list \<Rightarrow> 'a list" where
  "keepFirst [] = []"
| "keepFirst (x # xs) = x # removeAll x (keepFirst xs)"

definition lastValue :: "('k \<times> 'v) list \<Rightarrow> 'k \<Rightarrow> ('k \<times> 'v) list" where
  "lastValue kvs k = (case map_of (rev kvs) k of None \<Rightarrow> [] | Some v \<Rightarrow> [(k, v)])"

definition firstSeen :: "('k \<times> 'v) list \<Rightarrow> ('k \<times> 'v) list" where
  "firstSeen kvs = concat (map (lastValue kvs) (keepFirst (map fst kvs)))"

definition storedFields :: "pevent list \<Rightarrow> (jstring \<times> jstring) list" where
  "storedFields es = firstSeen (filter (\<lambda>kv. fst kv \<noteq> js ''__proto__'') (acceptedFields es))"

fun chunkOf :: "nat \<Rightarrow> pevent \<Rightarrow> bytes list" where
  "chunkOf i (Data j chunk) = (if j = i then [chunk] else [])"
| "chunkOf i e = []"

definition chunksOf :: "nat \<Rightarrow> pevent list \<Rightarrow> bytes list" where
  "chunksOf i es = concat (map (chunkOf i) es)"

definition payloadOf :: "nat \<Rightarrow> pevent list \<Rightarrow> bytes" where
  "payloadOf i es = concat (chunksOf i es)"

fun fileInfo :: "pevent \<Rightarrow> (nat \<times> jstring \<times> jstring option \<times> jstring) list" where
  "fileInfo (File i name filename mimeType) = [(i, name, filename, mimeType)]"
| "fileInfo e = []"

definition fileTable :: "pevent list \<Rightarrow> (nat \<times> jstring \<times> jstring option \<times> jstring) list" where
  "fileTable es = concat (map fileInfo es)"

definition completedEntry :: "pevent list \<Rightarrow> nat \<Rightarrow> fileEntry list" where
  "completedEntry es i =
     (case map_of (fileTable es) i of
        None \<Rightarrow> []
      | Some (name, filename, mimeType) \<Rightarrow>
          if noFilename filename \<or> payloadOf i es = [] then []
          else [\<lparr>f_name = name, f_filename = orEmpty filename, f_type = mimeType,
                 f_buffer = payloadOf i es, f_size = length (payloadOf i es)\<rparr>])"

definition completedEntries :: "pevent list \<Rightarrow> fileEntry list" where
  "completedEntries es = concat (map (completedEntry es) (endedIds es))"

definition listenerOf :: "pevent list \<Rightarrow> nat \<times> jstring \<times> jstring option \<times> jstring \<Rightarrow> (nat \<times> fileStream) list" where
  "listenerOf es info =
     (case info of (i, name, filename, mimeType) \<Rightarrow>
        if noFilename filename then []
        else [(i, \<lparr>s_name = name, s_filename = orEmpty filename, s_mimeType = mimeType,
                   s_chunks = chunksOf i es\<rparr>)])"

subsection \<open>The upload request of a trace\<close>

definition theRequest ::
  "mailerConfig \<Rightarrow> 'n runtime \<Rightarrow> jstring jsobject \<Rightarrow> fileEntry list \<Rightarrow> 'n request" where
  "theRequest config rt flds fls =
     uploadRequest config (makeBoundary rt 0)
       (multipartBody (makeBoundary rt 0) (trim (MAILER_FORM_ID config)) flds fls)"

definition answer :: "'n runtime \<Rightarrow> 'n request \<Rightarrow> 'n settled" where
  "answer rt req =
     (case fetch rt req of Inl err \<Rightarrow> Rejected err | Inr resp \<Rightarrow> forwardResponse resp)"

subsection \<open>Names used in the properties\<close>

text \<open>A filename counts as absent when it is undefined, empty or white space only.\<close>

definition blankFilename :: "jstring option \<Rightarrow> bool" where
  "blankFilename filename = (case filename of None \<Rightarrow> True | Some f \<Rightarrow> list_all isWhiteSpace f)"

fun usableFile :: "pevent \<Rightarrow> bool" where
  "usableFile (File i name filename mimeType) = (\<not> blankFilename filename)"
| "usableFile e = False"

fun reservedField :: "pevent \<Rightarrow> bool" where
  "reservedField (Field name v) = (name = js ''form-name'' \<or> name = js ''bot-field'')"
| "reservedField e = False"

fun topLevelKeys :: "'n json \<Rightarrow> jstring list" where
  "topLevelKeys (JObj kvs) = map fst kvs"
| "topLevelKeys v = []"

text \<open>
  A multipart body laid out in a given order: the form-identifier part, a part for each
  of the given fields, a part for each of the given files, the closing boundary line.
\<close>

definition orderedBody ::
  "jstring \<Rightarrow> jstring \<Rightarrow> (jstring \<times> jstring) list \<Rightarrow> fileEntry list \<Rightarrow> bytes" where
  "orderedBody boundary formIdValue fieldList fileList =
     concat (map toBuffer (formIdSegments boundary formIdValue)) @
     concat (map (\<lambda>kv. concat (map toBuffer (fieldSegments boundary kv))) fieldList) @
     concat (map (\<lambda>file. concat (map toBuffer (fileSegments boundary file))) fileList) @
     utf8 (js ''--'' @ boundary @ js ''--'' @ CRLF)"

text \<open>
  The fields other than the form identifier and the reserved ones, in the order in which
  their names were first seen, each with the value written last.
\<close>

definition fieldsAsFirstSeen :: "pevent list \<Rightarrow> (jstring \<times> jstring) list" where
  "fieldsAsFirstSeen es = filter (\<lambda>kv. fst kv \<noteq> js ''formId'') (firstSeen (acceptedFields es))"

section \<open>A reference reader for multipart bodies\<close>

text \<open>
  The reading side of \<^verbatim>\<open>multipart/form-data\<close> as the standards lay it down: the framing of
  RFC 2046 (section 5.1.1), the part headers of RFC 7578 with the Content-Disposition
  parameters of RFC 2183, parameter values that are tokens or quoted strings with
  backslash quoted-pairs (RFC 2045, RFC 822), and the default media type for a
  Content-Type that is not well formed (RFC 2045, section 5.2). A filename is taken as a
  terminal path component only (RFC 2183, section 2.3) and a media type as its type and
  subtype in lower case (RFC 2045, section 5.1: they are not case sensitive). Header lines
  are read unfolded. The reader is used to state what arrives downstream.
\<close>

record part =
  p_name :: bytes
  p_filename :: "bytes option"
  p_contentType :: "bytes option"
  p_content :: bytes

definition ascii :: "string \<Rightarrow> bytes" where
  "ascii s = map of_char s"

definition crlf :: bytes where
  "crlf = [0x0D, 0x0A]"

definition dashes :: bytes where
  "dashes = [0x2D, 0x2D]"

text \<open>Character classes: blanks, token characters, and text that may stand unescaped
  between double quotes (tab, and everything from space on except the double quote, the
  backslash and DEL).\<close>

definition blank :: "8 word \<Rightarrow> bool" where
  "blank c \<longleftrightarrow> c = 0x20 \<or> c = 0x09"

definition tokenChar :: "8 word \<Rightarrow> bool" where
  "tokenChar c \<longleftrightarrow>
     0x21 \<le> c \<and> c \<le> 0x7E \<and>
     c \<notin> {0x28, 0x29, 0x3C, 0x3E, 0x40, 0x2C, 0x3B, 0x3A, 0x5C, 0x22, 0x2F, 0x5B, 0x5D, 0x3F, 0x3D}"

definition quotable :: "8 word \<Rightarrow> bool" where
  "quotable c \<longleftrightarrow> (c = 0x09 \<or> 0x20 \<le> c) \<and> c \<noteq> 0x7F"

definition qdtext :: "8 word \<Rightarrow> bool" where
  "qdtext c \<longleftrightarrow> quotable c \<and> c \<noteq> 0x22 \<and> c \<noteq> 0x5C"

definition lower :: "8 word \<Rightarrow> 8 word" where
  "lower c = (if 0x41 \<le> c \<and> c \<le> 0x5A then c + 0x20 else c)"

definition trimBlanks :: "bytes \<Rightarrow> bytes" where
  "trimBlanks v = rev (dropWhile blank (rev (dropWhile blank v)))"

text \<open>\<open>cutAt d xs\<close> splits \<open>xs\<close> around the first occurrence of \<open>d\<close>.\<close>

fun cutAt :: "'a list \<Rightarrow> 'a list \<Rightarrow> ('a list \<times> 'a list) option" where
  "cutAt d [] = (if d = [] then Some ([], []) else None)"
| "cutAt d (x # xs) =
     (if prefix d (x # xs) then Some ([], drop (length d) (x # xs))
      else map_option (\<lambda>(a, b). (x # a, b)) (cutAt d xs))"

definition stripPrefix :: "'a list \<Rightarrow> 'a list \<Rightarrow> 'a list option" where
  "stripPrefix p xs = (if prefix p xs then Some (drop (length p) xs) else None)"

text \<open>
  A quoted string, read from behind its opening quote: unescaped text up to the closing
  quote, a backslash standing for the character after it.
\<close>

fun quoted :: "bytes \<Rightarrow> (bytes \<times> bytes) option" where
  "quoted [] = None"
| "quoted [c] = (if c = 0x22 then Some ([], []) else None)"
| "quoted (c # d # cs) =
     (if c = 0x22 then Some ([], d # cs)
      else if c = 0x5C then
        (if quotable d then map_option (\<lambda>(v, r). (d # v, r)) (quoted cs) else None)
      else if qdtext c then map_option (\<lambda>(v, r). (c # v, r)) (quoted (d # cs))
      else None)"

text \<open>
  The parameters of a header value, each \<^verbatim>\<open>; attribute=value\<close> with the attribute in lower
  case. Every parameter consumes input, so the length of the input bounds the rounds.
\<close>

fun parseParams :: "nat \<Rightarrow> bytes \<Rightarrow> (bytes \<times> bytes) list option" where
  "parseParams 0 input = None"
| "parseParams (Suc rounds) input =
     (case dropWhile blank input of
        [] \<Rightarrow> Some []
      | c # r1 \<Rightarrow>
          if c \<noteq> 0x3B then None
          else
            let r2 = dropWhile blank r1;
                attribute = map lower (takeWhile tokenChar r2)
            in if attribute = [] then None
               else (case dropWhile tokenChar r2 of
                       [] \<Rightarrow> None
                     | e # r3 \<Rightarrow>
                         if e \<noteq> 0x3D then None
                         else (case r3 of
                                 [] \<Rightarrow> None
                               | q # r4 \<Rightarrow>
                                   if q = 0x22 then
                                     (case quoted r4 of
                                        None \<Rightarrow> None
                                      | Some (v, r5) \<Rightarrow>
                                          map_option (Cons (attribute, v)) (parseParams rounds r5))
                                   else if takeWhile tokenChar r3 = [] then None
                                   else map_option (Cons (attribute, takeWhile tokenChar r3))
                                          (parseParams rounds (dropWhile tokenChar r3)))))"

definition parseDisposition :: "bytes \<Rightarrow> (bytes \<times> bytes option) option" where
  "parseDisposition v =
     (if map lower (takeWhile tokenChar v) \<noteq> ascii ''form-data'' then None
      else (case parseParams (length v) (dropWhile tokenChar v) of
              None \<Rightarrow> None
            | Some ps \<Rightarrow>
                (case map_of ps (ascii ''name'') of
                   None \<Rightarrow> None
                 | Some name \<Rightarrow> Some (name, map_of ps (ascii ''filename'')))))"

text \<open>A media type is \<^verbatim>\<open>type/subtype\<close> with parameters, read as type and subtype in
  lower case; anything else counts as \<^verbatim>\<open>text/plain\<close>.\<close>

definition wellFormedType :: "bytes \<Rightarrow> bool" where
  "wellFormedType v \<longleftrightarrow>
     takeWhile tokenChar v \<noteq> [] \<and>
     (case dropWhile tokenChar v of
        [] \<Rightarrow> False
      | c # r \<Rightarrow>
          c = 0x2F \<and> takeWhile tokenChar r \<noteq> [] \<and>
          parseParams (length v) (dropWhile tokenChar r) \<noteq> None)"

definition mediaType :: "bytes \<Rightarrow> bytes" where
  "mediaType v =
     (if wellFormedType v
      then map lower (takeWhile tokenChar v) @ [0x2F] @
           map lower (takeWhile tokenChar (drop 1 (dropWhile tokenChar v)))
      else ascii ''text/plain'')"

text \<open>The last path component of a filename, slash and backslash separating; the
  components \<^verbatim>\<open>.\<close> and \<^verbatim>\<open>..\<close> name no file.\<close>

definition lastComponent :: "bytes \<Rightarrow> bytes" where
  "lastComponent f =
     (let t = rev (takeWhile (\<lambda>c. c \<noteq> 0x2F \<and> c \<noteq> 0x5C) (rev f))
      in if t = [0x2E] \<or> t = [0x2E, 0x2E] then [] else t)"

text \<open>The header lines of a part up to the blank line, and a line as a field name in
  lower case with its value.\<close>

fun headerLines :: "nat \<Rightarrow> bytes \<Rightarrow> (bytes list \<times> bytes) option" where
  "headerLines 0 input = None"
| "headerLines (Suc rounds) input =
     (case cutAt crlf input of
        None \<Rightarrow> None
      | Some (line, rest) \<Rightarrow>
          if line = [] then Some ([], rest)
          else map_option (\<lambda>(ls, r). (line # ls, r)) (headerLines rounds rest))"

definition headerField :: "bytes \<Rightarrow> (bytes \<times> bytes) option" where
  "headerField line =
     (case cutAt [0x3A] line of
        None \<Rightarrow> None
      | Some (n, v) \<Rightarrow>
          if n \<noteq> [] \<and> list_all tokenChar n then Some (map lower n, trimBlanks v) else None)"

definition parseHeaders :: "bytes \<Rightarrow> (bytes \<times> bytes option \<times> bytes option \<times> bytes) option" where
  "parseHeaders input =
     (case headerLines (length input) input of
        None \<Rightarrow> None
      | Some (ls, rest) \<Rightarrow>
          (case those (map headerField ls) of
             None \<Rightarrow> None
           | Some hs \<Rightarrow>
               (case map_of hs (ascii ''content-disposition'') of
                  None \<Rightarrow> None
                | Some d \<Rightarrow>
                    (case parseDisposition d of
                       None \<Rightarrow> None
                     | Some (name, filename) \<Rightarrow>
                         Some (name, map_option lastComponent filename,
                               map_option mediaType (map_of hs (ascii ''content-type'')),
                               rest)))))"

text \<open>
  The parts after a delimiter, up to the closing delimiter. Every part read consumes
  input, so the length of the input bounds the number of rounds.
\<close>

fun parseParts :: "nat \<Rightarrow> bytes \<Rightarrow> bytes \<Rightarrow> part list option" where
  "parseParts 0 delimiter input = None"
| "parseParts (Suc rounds) delimiter input =
     (if prefix dashes input then Some []
      else (case stripPrefix crlf (dropWhile blank input) of
              None \<Rightarrow> None
            | Some r0 \<Rightarrow>
                (case parseHeaders r0 of
                   None \<Rightarrow> None
                 | Some (name, filename, t, r1) \<Rightarrow>
                     (case cutAt delimiter r1 of
                        None \<Rightarrow> None
                      | Some (content, r2) \<Rightarrow>
                          (case parseParts rounds delimiter r2 of
                             None \<Rightarrow> None
                           | Some ps \<Rightarrow>
                               Some (\<lparr>p_name = name, p_filename = filename,
                                      p_contentType = t, p_content = content\<rparr> # ps))))))"

text \<open>The body starts with the boundary line, or with a preamble that ends before the
  first delimiter.\<close>

definition parseMultipart :: "bytes \<Rightarrow> bytes \<Rightarrow> part list option" where
  "parseMultipart boundary input =
     (case stripPrefix (dashes @ boundary) input of
        Some rest \<Rightarrow> parseParts (length input) (crlf @ dashes @ boundary) rest
      | None \<Rightarrow>
          (case cutAt (crlf @ dashes @ boundary) input of
             None \<Rightarrow> None
           | Some (preamble, rest) \<Rightarrow>
               parseParts (length input) (crlf @ dashes @ boundary) rest))"

text \<open>The canonical body of a list of parts, and the parts it reads back unchanged.\<close>

definition dispositionPrefix :: bytes where
  "dispositionPrefix = ascii ''Content-Disposition: form-data; name='' @ [0x22]"

definition filenamePrefix :: bytes where
  "filenamePrefix = ascii ''; filename='' @ [0x22]"

definition typePrefix :: bytes where
  "typePrefix = ascii ''Content-Type: ''"

definition wirePart :: "part \<Rightarrow> bytes" where
  "wirePart p =
     dispositionPrefix @ p_name p @ [0x22] @
     (case p_filename p of None \<Rightarrow> [] | Some f \<Rightarrow> filenamePrefix @ f @ [0x22]) @ crlf @
     (case p_contentType p of None \<Rightarrow> [] | Some t \<Rightarrow> typePrefix @ t @ crlf) @ crlf @
     p_content p"

definition wireBody :: "bytes \<Rightarrow> part list \<Rightarrow> bytes" where
  "wireBody boundary ps =
     dashes @ boundary @
     concat (map (\<lambda>p. crlf @ wirePart p @ crlf @ dashes @ boundary) ps) @ dashes @ crlf"

fun startsWithin :: "'a list \<Rightarrow> 'a list \<Rightarrow> bool" where
  "startsWithin d [] = False"
| "startsWithin d (x # xs) = (prefix d (x # xs @ d) \<or> startsWithin d xs)"

text \<open>What is read as written: a filename without path separators that is a name, and
  a media type that is \<^verbatim>\<open>type/subtype\<close> in lower case.\<close>

definition plainName :: "bytes \<Rightarrow> bool" where
  "plainName f \<longleftrightarrow> list_all qdtext f \<and> 0x2F \<notin> set f \<and> f \<noteq> [0x2E] \<and> f \<noteq> [0x2E, 0x2E]"

definition plainType :: "bytes \<Rightarrow> bool" where
  "plainType t \<longleftrightarrow>
     takeWhile tokenChar t \<noteq> [] \<and> map lower t = t \<and>
     (case dropWhile tokenChar t of
        [] \<Rightarrow> False
      | c # sub \<Rightarrow> c = 0x2F \<and> sub \<noteq> [] \<and> list_all tokenChar sub)"

definition hygienic :: "bytes \<Rightarrow> part \<Rightarrow> bool" where
  "hygienic boundary p \<longleftrightarrow>
     list_all qdtext (p_name p) \<and>
     (case p_filename p of None \<Rightarrow> True | Some f \<Rightarrow> plainName f) \<and>
     (case p_contentType p of None \<Rightarrow> True | Some t \<Rightarrow> plainType t) \<and>
     \<not> startsWithin (crlf @ dashes @ boundary) (p_content p)"

text \<open>Fields and files as the parts a reader is to find.\<close>

definition fieldPart :: "jstring \<times> jstring \<Rightarrow> part" where
  "fieldPart kv = \<lparr>p_name = utf8 (fst kv), p_filename = None, p_contentType = None,
                   p_content = utf8 (snd kv)\<rparr>"

definition filePart :: "fileEntry \<Rightarrow> part" where
  "filePart file = \<lparr>p_name = utf8 (f_name file), p_filename = Some (utf8 (f_filename file)),
                     p_contentType = Some (utf8 (f_type file)), p_content = f_buffer file\<rparr>"

text \<open>
  The parts the upload request carries for a trace: the form identifier, the stored
  fields not named \<open>formId\<close> in enumeration order, the completed files.
\<close>

definition forwardedParts :: "mailerConfig \<Rightarrow> pevent list \<Rightarrow> part list" where
  "forwardedParts config es =
     fieldPart (js ''formId'', trim (MAILER_FORM_ID config)) #
     map fieldPart (filter (\<lambda>kv. fst kv \<noteq> js ''formId'') (Object_entries (storedFields es))) @
     map filePart (completedEntries es)"

text \<open>
  The parts of the Submission as the round-trip property reads them: after the form
  identifier, every non-reserved field in first-seen order with its last value, and
  every completed file.
\<close>

definition submittedParts :: "mailerConfig \<Rightarrow> pevent list \<Rightarrow> part list" where
  "submittedParts config es =
     fieldPart (js ''formId'', trim (MAILER_FORM_ID config)) #
     map fieldPart (firstSeen (acceptedFields es)) @
     map filePart (completedEntries es)"

definition readBack :: "bytes \<Rightarrow> 'n request \<Rightarrow> part list option" where
  "readBack boundary req =
     (case reqBody req of RawBuffer input \<Rightarrow> parseMultipart boundary input | JsonText v \<Rightarrow> None)"

section \<open>Sample configurations, runtimes and uploads\<close>

definition exampleConfig :: mailerConfig where
  "exampleConfig = \<lparr>MAILER_BASE_URL = js ''https://mailer.example/api'',
                     MAILER_FORM_ID = js '' contact '',
                     MAILER_FORM_API_KEY = js ''secret''\<rparr>"

definition exampleResponse :: "unit fetchResponse" where
  "exampleResponse = \<lparr>status = 200, contentType = Some (js ''application/json''),
                       bodyText = [], bodyJson = Inr (JObj [(js ''id'', JStr (js ''42''))])\<rparr>"

definition exampleUpload :: "pevent list" where
  "exampleUpload =
     [Field (js ''email'') (js ''a@b.com''),
      File 0 (js ''cv'') (Some (js ''resume.pdf'')) (js ''application/pdf''),
      File 1 (js ''extra'') (Some []) (js ''application/octet-stream''),
      Data 0 [0x25, 0x50, 0x44, 0x46],
      End 1,
      Finish,
      Data 0 [0x2D, 0x31],
      End 0]"

definition exampleRuntime :: "unit runtime" where
  "exampleRuntime =
     \<lparr>jsonParse = (\<lambda>s. Inr (JObj [(js ''name'', JStr (js ''Ann'')),
                                     (js ''bot-field'', JStr [])])),
      fetch = (\<lambda>req. Inr exampleResponse),
      busboyNew = (\<lambda>hs. Inr (\<lambda>b. exampleUpload)),
      fromBase64 = (\<lambda>s. []),
      dateNow = (\<lambda>k. 1700000000000),
      randomTag = (\<lambda>k. js ''k3j9x0a1b''),
      builtinMessage = (\<lambda>f. js ''TypeError'')\<rparr>"

definition malformedEvent :: lambdaEvent where
  "malformedEvent = \<lparr>httpMethod = js ''POST'',
                    evHeaders = [(js ''content-type'', js ''application/json'')],
                    evBody = Some (js ''{oops''),
                    isBase64Encoded = False\<rparr>"

definition exampleHandlerConfig :: handlerConfig where
  "exampleHandlerConfig = \<lparr>baseUrl = Some (js ''https://mailer.example/api''),
                            formId = Some (js ''contact''), apiKey = None\<rparr>"

definition exampleEnv :: processEnv where
  "exampleEnv = \<lparr>env_MAILER_BASE_URL = None, env_MAILER_FORM_ID = None,
                  env_MAILER_FORM_API_KEY = Some (js ''secret'')\<rparr>"

definition emptyEnv :: processEnv where
  "emptyEnv = \<lparr>env_MAILER_BASE_URL = None, env_MAILER_FORM_ID = None,
                env_MAILER_FORM_API_KEY = None\<rparr>"

definition strictRuntime :: "unit runtime" where
  "strictRuntime = exampleRuntime\<lparr>jsonParse := (\<lambda>s. Inl (js ''Unexpected token o in JSON''))\<rparr>"

definition htmlResponse :: "unit fetchResponse" where
  "htmlResponse = \<lparr>status = 503, contentType = Some (js ''text/html; charset=utf-8''),
                    bodyText = js ''<html><body>Service Unavailable</body></html>'',
                    bodyJson = Inl (js ''Unexpected token < in JSON'')\<rparr>"

definition htmlRuntime :: "unit runtime" where
  "htmlRuntime = exampleRuntime\<lparr>fetch := (\<lambda>req. Inr htmlResponse)\<rparr>"

definition refusalResponse :: "unit fetchResponse" where
  "refusalResponse = \<lparr>status = 422, contentType = Some (js ''application/json''),
                       bodyText = [],
                       bodyJson = Inr (JObj [(js ''success'', JBool False),
                                             (js ''error'', JStr (js ''Invalid email''))])\<rparr>"

definition refusingRuntime :: "unit runtime" where
  "refusingRuntime = exampleRuntime\<lparr>fetch := (\<lambda>req. Inr refusalResponse)\<rparr>"

definition uploadEvent :: lambdaEvent where
  "uploadEvent = \<lparr>httpMethod = js ''POST'',
                   evHeaders = [(js ''Content-Type'',
                                 js ''multipart/form-data; boundary=----x'')],
                   evBody = Some (js ''...''),
                   isBase64Encoded = False\<rparr>"

definition jsonEvent :: lambdaEvent where
  "jsonEvent = \<lparr>httpMethod = js ''POST'',
                 evHeaders = [(js ''content-type'', js ''application/json'')],
                 evBody = Some (js ''{'' @ DQ @ js ''name'' @ DQ @ js '':'' @ DQ @ js ''Ann'' @ DQ @
                                js '','' @ DQ @ js ''bot-field'' @ DQ @ js '':'' @ DQ @ DQ @ js ''}''),
                 isBase64Encoded = False\<rparr>"

definition brokenUpload :: "pevent list" where
  "brokenUpload =
     [Field (js ''email'') (js ''a@b.com''),
      File 0 (js ''cv'') (Some (js ''resume.pdf'')) (js ''application/pdf''),
      Data 0 [0x25, 0x50, 0x44, 0x46],
      FileError 0 (js ''Unexpected end of file''),
      Finish]"

definition spamUpload :: "pevent list" where
  "spamUpload =
     [Field (js ''form-name'') (js ''contact''),
      Field (js ''email'') (js ''a@b.com''),
      Field (js ''bot-field'') (js ''buy now''),
      Finish]"

definition emptyUpload :: "pevent list" where
  "emptyUpload =
     [File 0 (js ''cv'') (Some (js ''empty.txt'')) (js ''text/plain''),
      File 1 (js ''photo'') (Some (js ''  '')) (js ''application/octet-stream''),
      Data 1 [0x01],
      End 1,
      End 0,
      Finish]"

definition numberedUpload :: "pevent list" where
  "numberedUpload = [Field (js ''b'') (js ''x''), Field (js ''1'') (js ''y''), Finish]"

definition quotedUpload :: "pevent list" where
  "quotedUpload = [Field (js ''a'' @ DQ @ js ''b'') (js ''v''), Finish]"

definition escapedUpload :: "pevent list" where
  "escapedUpload = [Field (js ''a'' @ [0x5C]) (js ''v''), Finish]"

definition collidingUpload :: "pevent list" where
  "collidingUpload =
     [Field (js ''m'')
        (js ''x'' @ CRLF @ js ''--'' @ makeBoundary exampleRuntime 0 @ js ''--'' @ CRLF),
      Finish]"

definition renamedUpload :: "pevent list" where
  "renamedUpload = [Field (js ''formId'') (js ''other''), Finish]"

definition inheritedUpload :: "pevent list" where
  "inheritedUpload = [Field (js ''__proto__'') (js ''v''), Finish]"

section \<open>Properties\<close>

subsection \<open>Event traces within the parser's contract\<close>

lemma run_snoc: "run config rt (es @ [e]) = deliver config rt (run config rt es) e"
  by (simp add: run_def)

lemma wellFormedFrom_snoc:
  "wellFormedFrom h (es @ [e]) = (wellFormedFrom h es \<and> admissible (h @ es) e)"
  by (induction es arbitrary: h) auto

lemma wellFormed_snoc: "wellFormed (es @ [e]) = (wellFormed es \<and> admissible es e)"
  by (simp add: wellFormed_def wellFormedFrom_snoc)

lemma wellFormed_Nil: "wellFormed []"
  by (simp add: wellFormed_def)

lemma ids_snoc:
  "announcedIds (es @ [e]) = announcedIds es @ announces e"
  "listenedIds (es @ [e]) = listenedIds es @ listens e"
  "closedIds (es @ [e]) = closedIds es @ closes e"
  "endedIds (es @ [e]) = endedIds es @ ends e"
  by (simp_all add: announcedIds_def listenedIds_def closedIds_def endedIds_def)

lemma listened_announced: "set (listenedIds es) \<subseteq> set (announcedIds es)"
proof (induction es rule: rev_induct)
  case Nil
  show ?case by (simp add: listenedIds_def)
next
  case (snoc e es)
  then show ?case by (cases e) (auto simp: ids_snoc)
qed

lemma ended_closed: "set (endedIds es) \<subseteq> set (closedIds es)"
proof (induction es rule: rev_induct)
  case Nil
  show ?case by (simp add: endedIds_def)
next
  case (snoc e es)
  then show ?case by (cases e) (auto simp: ids_snoc)
qed

lemma wf_closed:
  "wellFormed es \<Longrightarrow> distinct (closedIds es) \<and> set (closedIds es) \<subseteq> set (announcedIds es)"
proof (induction es rule: rev_induct)
  case Nil
  show ?case by (simp add: closedIds_def)
next
  case (snoc e es)
  then show ?case by (cases e) (auto simp: ids_snoc wellFormed_snoc live_def)
qed

lemma wf_ended_distinct: "wellFormed es \<Longrightarrow> distinct (endedIds es)"
proof (induction es rule: rev_induct)
  case Nil
  show ?case by (simp add: endedIds_def)
next
  case (snoc e es)
  then show ?case using ended_closed [of es]
    by (cases e) (auto simp: ids_snoc wellFormed_snoc live_def)
qed

lemma wf_listened_distinct: "wellFormed es \<Longrightarrow> distinct (listenedIds es)"
proof (induction es rule: rev_induct)
  case Nil
  show ?case by (simp add: listenedIds_def)
next
  case (snoc e es)
  then show ?case using listened_announced [of es]
    by (cases e) (auto simp: ids_snoc wellFormed_snoc)
qed

lemma drained_le_opened: "wellFormed es \<Longrightarrow> drained es \<le> opened es"
proof -
  assume wf: "wellFormed es"
  have d: "distinct (drainedIds es)"
    using wf_ended_distinct [OF wf] by (simp add: drainedIds_def)
  have "set (drainedIds es) \<subseteq> set (listenedIds es)"
    by (auto simp: drainedIds_def)
  then have "card (set (drainedIds es)) \<le> card (set (listenedIds es))"
    by (intro card_mono) auto
  then show ?thesis
    using d wf_listened_distinct [OF wf] by (simp add: drained_def opened_def distinct_card)
qed

lemma all_drained:
  assumes wf: "wellFormed es" and eq: "drained es = opened es"
  shows "set (listenedIds es) \<subseteq> set (closedIds es)"
proof -
  have d: "distinct (drainedIds es)"
    using wf_ended_distinct [OF wf] by (simp add: drainedIds_def)
  have sub: "set (drainedIds es) \<subseteq> set (listenedIds es)"
    by (auto simp: drainedIds_def)
  have "card (set (drainedIds es)) = card (set (listenedIds es))"
    using eq d wf_listened_distinct [OF wf] by (simp add: drained_def opened_def distinct_card)
  with sub have "set (drainedIds es) = set (listenedIds es)"
    by (intro card_subset_eq) auto
  moreover have "set (drainedIds es) \<subseteq> set (closedIds es)"
    using ended_closed [of es] by (auto simp: drainedIds_def)
  ultimately show ?thesis by simp
qed

lemma drainedIds_snoc:
  assumes "wellFormed (es @ [e])"
  shows "drainedIds (es @ [e]) =
         drainedIds es @ filter (\<lambda>i. i \<in> set (listenedIds es)) (ends e)"
proof -
  from assms have wf: "wellFormed es" and adm: "admissible es e"
    by (simp_all add: wellFormed_snoc)
  have cl: "set (endedIds es) \<subseteq> set (announcedIds es)"
    using ended_closed [of es] wf_closed [OF wf] by auto
  show ?thesis
  proof (cases e)
    case (File i name filename mimeType)
    with adm have "i \<notin> set (endedIds es)" using cl by auto
    then have "filter (\<lambda>j. j \<in> set (listenedIds es) \<or> j = i) (endedIds es) = 
               filter (\<lambda>j. j \<in> set (listenedIds es)) (endedIds es)"
      by (intro filter_cong) auto
    with File show ?thesis by (auto simp: drainedIds_def ids_snoc)
  qed (auto simp: drainedIds_def ids_snoc)
qed

lemma wf_one_terminal: "wellFormed es \<Longrightarrow> length (filter terminal es) \<le> 1"
proof (induction es rule: rev_induct)
  case Nil
  show ?case by simp
next
  case (snoc e es)
  then show ?case by (cases e) (auto simp: wellFormed_snoc parserOpen_def)
qed

lemma finished_not_open: "Finish \<in> set es \<Longrightarrow> \<not> parserOpen es"
  by (auto simp: parserOpen_def filter_empty_conv intro: bexI [of _ Finish])

lemma failures_snoc: "failures (es @ [e]) = failures es @ parseErrors e"
  by (simp add: failures_def)

lemma open_no_failures: "parserOpen es \<Longrightarrow> failures es = []"
proof (induction es)
  case Nil
  show ?case by (simp add: failures_def)
next
  case (Cons e es)
  then show ?case by (cases e) (auto simp: failures_def parserOpen_def split: if_splits)
qed

lemma open_no_failure: "parserOpen es \<Longrightarrow> parseFailure es = None"
  by (simp add: parseFailure_def open_no_failures)

subsection \<open>What the accumulator's variables hold\<close>

lemma forwardRequest_frame:
  "fieldsObj (forwardRequest config rt s) = fieldsObj s"
  "files (forwardRequest config rt s) = files s"
  "fieldsProcessed (forwardRequest config rt s) = fieldsProcessed s"
  "pendingFiles (forwardRequest config rt s) = pendingFiles s"
  "completedFiles (forwardRequest config rt s) = completedFiles s"
  "streams (forwardRequest config rt s) = streams s"
  "errorLog (forwardRequest config rt s) = errorLog s"
  "crashed (forwardRequest config rt s) = crashed s"
  by (simp_all add: forwardRequest_def settle_def Let_def split: option.splits sum.splits)

lemma unsettled_forwardRequest: "unsettled (forwardRequest config rt s) = unsettled s"
  by (simp add: forwardRequest_def settle_def Let_def unsettled_def split: option.splits sum.splits)

lemma unsettled_id: "requests s = [] \<Longrightarrow> outcome s = None \<Longrightarrow> unsettled s = s"
  by (simp add: unsettled_def)

lemma forwardRequest_fixed:
  "requests s = [] \<Longrightarrow> outcome s = None \<Longrightarrow>
   forwardRequest config rt s = forwardRequest config rt (unsettled (forwardRequest config rt s))"
  by (simp add: unsettled_forwardRequest unsettled_id)

lemma pushChunk_keys: "map fst (pushChunk i chunk sts) = map fst sts"
  by (induction sts) (auto simp: pushChunk_def)

lemma pushChunk_absent: "i \<notin> set (map fst sts) \<Longrightarrow> pushChunk i chunk sts = sts"
  by (induction sts) (auto simp: pushChunk_def)

lemma map_of_absent: "i \<notin> set (map fst sts) \<Longrightarrow> map_of sts i = None"
  by (simp add: map_of_eq_None_iff)

lemma map_of_present: "i \<in> set (map fst sts) \<Longrightarrow> \<exists>st. map_of sts i = Some st"
  by (metis map_of_eq_None_iff not_None_eq set_map)

lemma wf_finish_no_failure:
  "wellFormed es \<Longrightarrow> Finish \<in> set es \<Longrightarrow> parseFailure es = None"
proof (induction es rule: rev_induct)
  case Nil
  then show ?case by simp
next
  case (snoc e es)
  from snoc.prems have wf: "wellFormed es" and adm: "admissible es e"
    by (simp_all add: wellFormed_snoc)
  show ?case
  proof (cases "parserOpen es")
    case True
    then have "Finish \<notin> set es" using finished_not_open by blast
    with snoc.prems have e: "e = Finish" by simp
    with e open_no_failures [OF True] show ?thesis by (simp add: parseFailure_def failures_snoc)
  next
    case False
    with adm have "parseErrors e = []" "e \<noteq> Finish" by (cases e; simp)+
    moreover from this snoc.prems have "Finish \<in> set es" by simp
    ultimately show ?thesis using snoc.IH [OF wf] by (simp add: parseFailure_def failures_snoc)
  qed
qed

lemma tracks_transfer:
  fixes s :: "'n mstate"
  assumes "tracks config rt es s"
    and "(Finish \<in> set es') = (Finish \<in> set es)"
    and "opened es' = opened es"
    and "drained es' = drained es"
    and "listenedIds es' = listenedIds es"
    and "(parseFailure es' :: 'n settled option) = parseFailure es"
  shows "tracks config rt es' s"
  using assms by (simp add: tracks_def ready_def)

lemma tracks_step:
  fixes s :: "'n mstate"
  assumes I: "tracks config rt es s" and wf: "wellFormed (es @ [e])"
  shows "tracks config rt (es @ [e]) (deliver config rt s e)"
proof -
  from wf have wfes: "wellFormed es" and adm: "admissible es e"
    by (simp_all add: wellFormed_snoc)
  from I have nc: "\<not> crashed s"
    and fp: "fieldsProcessed s = (Finish \<in> set es)"
    and pf: "pendingFiles s = opened es"
    and cf: "completedFiles s = drained es"
    and st: "map fst (streams s) = listenedIds es"
    and rq: "if ready es then s = forwardRequest config rt (unsettled s)
             else requests s = [] \<and> outcome s = parseFailure es"
    by (simp_all add: tracks_def)
  have del: "deliver config rt s e = on config rt s e"
    using nc by (simp add: deliver_def)
  have dr: "drained (es @ [e]) =
            drained es + length (filter (\<lambda>i. i \<in> set (listenedIds es)) (ends e))"
    using drainedIds_snoc [OF wf] by (simp add: drained_def)
  have op: "opened (es @ [e]) = opened es + length (listens e)"
    by (simp add: opened_def ids_snoc)
  have le: "drained es \<le> opened es"
    using drained_le_opened [OF wfes] .
  have pfail: "(parseFailure (es @ [e]) :: 'n settled option) =
    (case parseFailure es of None \<Rightarrow> (case parseErrors e of [] \<Rightarrow> None | err # _ \<Rightarrow> Some (Rejected err))
     | Some r \<Rightarrow> Some r)"
    by (simp add: parseFailure_def failures_snoc split: list.splits)
  show ?thesis
  proof (cases e)
    case (Field name v)
    with adm have po: "parserOpen es" by simp
    then have nf: "Finish \<notin> set es" using finished_not_open by blast
    then have nr: "\<not> ready es" "\<not> ready (es @ [e])" using Field by (simp_all add: ready_def)
    show ?thesis
      unfolding tracks_def del using Field nc fp pf cf st rq nr dr op pfail nf
      by (simp add: ids_snoc split: option.splits)
  next
    case (File i name filename mimeType)
    with adm have po: "parserOpen es" by simp
    then have nf: "Finish \<notin> set es" using finished_not_open by blast
    then have nr: "\<not> ready es" "\<not> ready (es @ [e])" using File by (simp_all add: ready_def)
    show ?thesis
      unfolding tracks_def del using File nc fp pf cf st rq nr dr op pfail nf
      by (simp add: ids_snoc split: option.splits)
  next
    case (Data i chunk)
    have same: "(Finish \<in> set (es @ [e])) = (Finish \<in> set es)"
      "opened (es @ [e]) = opened es" "drained (es @ [e]) = drained es"
      "listenedIds (es @ [e]) = listenedIds es"
      "(parseFailure (es @ [e]) :: 'n settled option) = parseFailure es"
      using Data dr op pfail by (simp_all add: ids_snoc split: option.splits)
    have "tracks config rt es (on config rt s e)"
    proof (cases "ready es")
      case True
      then have eq: "drained es = opened es" by (simp add: ready_def)
      have "i \<notin> set (listenedIds es)"
        using all_drained [OF wfes eq] adm Data by (auto simp: live_def)
      then have "pushChunk i chunk (streams s) = streams s"
        using st by (simp add: pushChunk_absent)
      then show ?thesis using I Data by simp
    next
      case False
      then show ?thesis
        unfolding tracks_def using Data nc fp pf cf st rq
        by (simp add: pushChunk_keys)
    qed
    then show ?thesis unfolding del by (rule tracks_transfer) (rule same)+
  next
    case (End i)
    show ?thesis
    proof (cases "i \<in> set (listenedIds es)")
      case False
      then have none: "map_of (streams s) i = None"
        using st by (simp add: map_of_absent)
      have same: "(Finish \<in> set (es @ [e])) = (Finish \<in> set es)"
        "opened (es @ [e]) = opened es" "drained (es @ [e]) = drained es"
        "listenedIds (es @ [e]) = listenedIds es"
        "(parseFailure (es @ [e]) :: 'n settled option) = parseFailure es"
        using End dr op pfail False by (simp_all add: ids_snoc split: option.splits)
      have "on config rt s e = s" using End none by simp
      with I show ?thesis unfolding del by (simp only:) (rule tracks_transfer [of config rt es], assumption, (rule same)+)
    next
      case True
      then obtain stv where some: "map_of (streams s) i = Some stv"
        using st map_of_present [of i "streams s"] by auto
      have nr: "\<not> ready es"
      proof
        assume "ready es"
        then have "drained es = opened es" by (simp add: ready_def)
        from all_drained [OF wfes this] True adm End show False by (auto simp: live_def)
      qed
      with rq have r0: "requests s = []" and o0: "outcome s = parseFailure es" by simp_all
      have dr': "drained (es @ [e]) = drained es + 1" using dr End True by simp
      have op': "opened (es @ [e]) = opened es" using op End by simp
      have pos: "opened es \<noteq> 0" using True by (auto simp: opened_def)
      have fin: "(Finish \<in> set (es @ [e])) = (Finish \<in> set es)" using End by simp
      have pf': "(parseFailure (es @ [e]) :: 'n settled option) = parseFailure es"
        using End pfail by (simp split: option.splits)
      define s1 where "s1 = (if length (concat (s_chunks stv)) > 0
                    then s\<lparr>files := files s @
                             [\<lparr>f_name = s_name stv, f_filename = s_filename stv,
                               f_type = s_mimeType stv, f_buffer = concat (s_chunks stv),
                               f_size = length (concat (s_chunks stv))\<rparr>]\<rparr>
                    else s)"
      define s2 where "s2 = s1\<lparr>completedFiles := completedFiles s1 + 1\<rparr>"
      have on_eq: "on config rt s e = checkAndForward config rt s2"
        using End some by (simp add: s1_def s2_def Let_def)
      have s2_facts: "\<not> crashed s2" "fieldsProcessed s2 = (Finish \<in> set es)"
        "pendingFiles s2 = opened es" "completedFiles s2 = drained es + 1"
        "map fst (streams s2) = listenedIds es" "requests s2 = []"
        "outcome s2 = parseFailure es"
        using nc fp pf cf st r0 o0 by (simp_all add: s1_def s2_def)
      show ?thesis
      proof (cases "ready (es @ [e])")
        case True
        then have f: "Finish \<in> set es" and eq: "drained es + 1 = opened es"
          using dr' op' End by (simp_all add: ready_def)
        have none: "(parseFailure es :: 'n settled option) = None"
          using wf_finish_no_failure [OF wfes f] .
        have "checkAndForward config rt s2 = forwardRequest config rt s2"
          using s2_facts f eq by (simp add: checkAndForward_def)
        moreover have "forwardRequest config rt s2 =
            forwardRequest config rt (unsettled (forwardRequest config rt s2))"
          using s2_facts none by (intro forwardRequest_fixed) simp_all
        ultimately show ?thesis
          unfolding tracks_def del on_eq using True s2_facts dr' op' fin End
          by (simp add: forwardRequest_frame ids_snoc)
      next
        case False
        then have "\<not> (Finish \<in> set es \<and> drained es + 1 = opened es)"
          using dr' op' End by (simp add: ready_def)
        then have "checkAndForward config rt s2 = s2"
          using s2_facts pos by (auto simp: checkAndForward_def)
        then show ?thesis
          unfolding tracks_def del on_eq using False s2_facts dr' op' fin End pf'
          by (simp add: ids_snoc)
      qed
    qed
  next
    case (FileError i err)
    with adm have l: "i \<in> set (listenedIds es)" and lv: "live es i" by simp_all
    then obtain stv where some: "map_of (streams s) i = Some stv"
      using st map_of_present [of i "streams s"] by auto
    have nr: "\<not> ready es"
    proof
      assume "ready es"
      then have "drained es = opened es" by (simp add: ready_def)
      from all_drained [OF wfes this] l lv show False by (auto simp: live_def)
    qed
    have same: "(Finish \<in> set (es @ [e])) = (Finish \<in> set es)"
      "opened (es @ [e]) = opened es" "drained (es @ [e]) = drained es"
      "listenedIds (es @ [e]) = listenedIds es"
      "(parseFailure (es @ [e]) :: 'n settled option) = parseFailure es"
      using FileError dr op pfail by (simp_all add: ids_snoc split: option.splits)
    have "tracks config rt es (on config rt s e)"
      unfolding tracks_def using FileError some nc fp pf cf st rq nr by simp
    then show ?thesis unfolding del by (rule tracks_transfer) (rule same)+
  next
    case Finish
    with adm have po: "parserOpen es" by simp
    then have nf: "Finish \<notin> set es" using finished_not_open by blast
    then have nr: "\<not> ready es" by (simp add: ready_def)
    with rq have r0: "requests s = []" and o0: "outcome s = parseFailure es" by simp_all
    have none: "(parseFailure es :: 'n settled option) = None"
      using open_no_failure [OF po] .
    have dr': "drained (es @ [e]) = drained es" using dr Finish by simp
    have op': "opened (es @ [e]) = opened es" using op Finish by simp
    have rd: "ready (es @ [e]) = (drained es = opened es)"
      using Finish dr' op' by (simp add: ready_def)
    define s1 where "s1 = s\<lparr>fieldsProcessed := True\<rparr>"
    have s1_facts: "\<not> crashed s1" "fieldsProcessed s1"
        "pendingFiles s1 = opened es" "completedFiles s1 = drained es"
        "map fst (streams s1) = listenedIds es" "requests s1 = []"
        "outcome s1 = None"
      using nc pf cf st r0 o0 none by (simp_all add: s1_def)
    have fixed: "forwardRequest config rt s1 =
            forwardRequest config rt (unsettled (forwardRequest config rt s1))"
      using s1_facts by (intro forwardRequest_fixed) simp_all
    have pf': "(parseFailure (es @ [e]) :: 'n settled option) = None"
      using Finish pfail none by simp
    show ?thesis
    proof (cases "drained es = opened es")
      case True
      have "on config rt s e = forwardRequest config rt s1"
        using Finish s1_facts True by (simp add: s1_def [symmetric] Let_def checkAndForward_def)
      with fixed show ?thesis
        unfolding tracks_def del using True rd s1_facts dr' op' Finish
        by (simp add: forwardRequest_frame ids_snoc)
    next
      case False
      with le have "opened es \<noteq> 0" by simp
      then have "on config rt s e = s1"
        using Finish s1_facts False by (simp add: s1_def [symmetric] Let_def checkAndForward_def)
      then show ?thesis
        unfolding tracks_def del using False rd s1_facts dr' op' Finish pf'
        by (simp add: ids_snoc)
    qed
  next
    case (ParseError err)
    with adm have po: "parserOpen es" by simp
    then have nf: "Finish \<notin> set es" using finished_not_open by blast
    then have nr: "\<not> ready es" "\<not> ready (es @ [e])" using ParseError by (simp_all add: ready_def)
    with rq have r0: "requests s = []" and o0: "outcome s = parseFailure es" by simp_all
    have none: "(parseFailure es :: 'n settled option) = None"
      using open_no_failure [OF po] .
    show ?thesis
      unfolding tracks_def del using ParseError nc fp pf cf st r0 o0 none nr dr op pfail nf
      by (simp add: ids_snoc settle_def)
  qed
qed

lemma tracks_initial: "tracks config rt [] initial"
  by (simp add: tracks_def initial_def ready_def opened_def drained_def drainedIds_def
      listenedIds_def endedIds_def parseFailure_def failures_def)

lemma tracks_run: "wellFormed es \<Longrightarrow> tracks config rt es (run config rt es)"
proof (induction es rule: rev_induct)
  case Nil
  show ?case using tracks_initial by (simp add: run_def)
next
  case (snoc e es)
  then have "wellFormed es" by (simp add: wellFormed_snoc)
  from tracks_step [OF snoc.IH [OF this] snoc.prems] show ?case by (simp add: run_snoc)
qed

subsection \<open>The field store\<close>

lemma checkAndForward_frame:
  "fieldsObj (checkAndForward config rt s) = fieldsObj s"
  "files (checkAndForward config rt s) = files s"
  "streams (checkAndForward config rt s) = streams s"
  by (simp_all add: checkAndForward_def forwardRequest_frame)

lemma on_fieldsObj:
  "fieldsObj (on config rt s e) = foldl (\<lambda>obj kv. assign obj (fst kv) (snd kv)) (fieldsObj s) (fieldOf e)"
  by (cases e)
    (simp_all add: checkAndForward_frame forwardRequest_frame Let_def settle_def
      split: option.splits)

lemma on_streams:
  "streams (on config rt s e) =
     (case e of
        File i name filename mimeType \<Rightarrow>
          if noFilename filename then streams s
          else streams s @ [(i, \<lparr>s_name = name, s_filename = orEmpty filename,
                                 s_mimeType = mimeType, s_chunks = []\<rparr>)]
      | Data i chunk \<Rightarrow> pushChunk i chunk (streams s)
      | _ \<Rightarrow> streams s)"
  by (cases e)
    (simp_all add: checkAndForward_frame forwardRequest_frame Let_def settle_def
      split: option.splits)

lemma on_files:
  "files (on config rt s e) =
     files s @
     (case e of
        End i \<Rightarrow>
          (case map_of (streams s) i of
             None \<Rightarrow> []
           | Some st \<Rightarrow>
               if concat (s_chunks st) = [] then []
               else [\<lparr>f_name = s_name st, f_filename = s_filename st,
                      f_type = s_mimeType st, f_buffer = concat (s_chunks st),
                      f_size = length (concat (s_chunks st))\<rparr>])
      | _ \<Rightarrow> [])"
  by (cases e)
    (simp_all add: checkAndForward_frame forwardRequest_frame Let_def settle_def
      split: option.splits)

lemma run_not_crashed: "wellFormed es \<Longrightarrow> \<not> crashed (run config rt es)"
  using tracks_run [of es config rt] by (simp add: tracks_def)

lemma run_snoc_on:
  "wellFormed es \<Longrightarrow> run config rt (es @ [e]) = on config rt (run config rt es) e"
  by (simp add: run_snoc deliver_def run_not_crashed)

lemma fields_run:
  "wellFormed es \<Longrightarrow>
   fieldsObj (run config rt es) =
   foldl (\<lambda>obj kv. assign obj (fst kv) (snd kv)) [] (acceptedFields es)"
proof (induction es rule: rev_induct)
  case Nil
  show ?case by (simp add: run_def initial_def acceptedFields_def)
next
  case (snoc e es)
  then have wf: "wellFormed es" by (simp add: wellFormed_snoc)
  show ?case
    by (simp add: run_snoc_on [OF wf] on_fieldsObj snoc.IH [OF wf] acceptedFields_def)
qed

subsection \<open>First-seen order\<close>

lemma set_keepFirst: "set (keepFirst xs) = set xs"
  by (induction xs) auto

lemma distinct_keepFirst: "distinct (keepFirst xs)"
  by (induction xs) (auto simp: distinct_removeAll)

lemma keepFirst_snoc:
  "keepFirst (xs @ [x]) = (if x \<in> set xs then keepFirst xs else keepFirst xs @ [x])"
proof (induction xs)
  case Nil
  show ?case by simp
next
  case (Cons y ys)
  then show ?case by (auto simp: set_keepFirst removeAll_id)
qed

lemma lastValue_snoc:
  "lastValue (kvs @ [(k, v)]) k' = (if k' = k then [(k, v)] else lastValue kvs k')"
  by (simp add: lastValue_def)

lemma lastValue_key: "k \<in> fst ` set kvs \<Longrightarrow> \<exists>w. lastValue kvs k = [(k, w)]"
proof -
  assume "k \<in> fst ` set kvs"
  then have "k \<in> fst ` set (rev kvs)" by simp
  then obtain w where "map_of (rev kvs) k = Some w"
    by (metis map_of_eq_None_iff not_None_eq)
  then show ?thesis by (simp add: lastValue_def)
qed

lemma concat_lastValue_update:
  assumes "set ks \<subseteq> fst ` set kvs"
  shows "concat (map (\<lambda>k'. if k' = k then [(k, v)] else lastValue kvs k') ks) =
         map (\<lambda>(k', w). if k' = k then (k', v) else (k', w)) (concat (map (lastValue kvs) ks))"
  using assms
proof (induction ks)
  case Nil
  show ?case by simp
next
  case (Cons a ks)
  then obtain w where "lastValue kvs a = [(a, w)]" using lastValue_key [of a kvs] by auto
  with Cons show ?case by auto
qed

lemma concat_map_if_absent:
  "k \<notin> set ks \<Longrightarrow> concat (map (\<lambda>k'. if k' = k then a else f k') ks) = concat (map f ks)"
  by (induction ks) auto

lemma firstSeen_snoc:
  "firstSeen (kvs @ [(k, v)]) =
     (if k \<in> fst ` set kvs
      then map (\<lambda>(k', w). if k' = k then (k', v) else (k', w)) (firstSeen kvs)
      else firstSeen kvs @ [(k, v)])"
proof (cases "k \<in> fst ` set kvs")
  case True
  have "set (keepFirst (map fst kvs)) \<subseteq> fst ` set kvs" by (simp add: set_keepFirst)
  from concat_lastValue_update [OF this, of k v] True show ?thesis
    by (simp add: firstSeen_def keepFirst_snoc lastValue_snoc [abs_def])
next
  case False
  then have "k \<notin> set (keepFirst (map fst kvs))" by (simp add: set_keepFirst)
  from concat_map_if_absent [OF this] False show ?thesis
    by (simp add: firstSeen_def keepFirst_snoc lastValue_snoc [abs_def])
qed

lemma names_lastValue:
  "set ks \<subseteq> fst ` set kvs \<Longrightarrow> map fst (concat (map (lastValue kvs) ks)) = ks"
proof (induction ks)
  case Nil
  show ?case by simp
next
  case (Cons a ks)
  then obtain w where "lastValue kvs a = [(a, w)]" using lastValue_key [of a kvs] by auto
  with Cons show ?case by simp
qed

lemma firstSeen_names: "map fst (firstSeen kvs) = keepFirst (map fst kvs)"
  unfolding firstSeen_def by (rule names_lastValue) (simp add: set_keepFirst)

lemma firstSeen_keys: "fst ` set (firstSeen kvs) = fst ` set kvs"
proof -
  have "fst ` set (firstSeen kvs) = set (map fst (firstSeen kvs))" by simp
  also have "\<dots> = fst ` set kvs" by (simp only: firstSeen_names set_keepFirst set_map)
  finally show ?thesis .
qed

lemma assign_firstSeen:
  "foldl (\<lambda>obj kv. assign obj (fst kv) (snd kv)) [] kvs =
   firstSeen (filter (\<lambda>kv. fst kv \<noteq> js ''__proto__'') kvs)"
proof (induction kvs rule: rev_induct)
  case Nil
  show ?case by (simp add: firstSeen_def)
next
  case (snoc kv kvs)
  obtain k v where kv: "kv = (k, v)" by (cases kv)
  have "foldl (\<lambda>obj kv. assign obj (fst kv) (snd kv)) [] (kvs @ [kv]) =
        assign (foldl (\<lambda>obj kv. assign obj (fst kv) (snd kv)) [] kvs) k v"
    by (simp add: kv)
  also have "\<dots> = assign (firstSeen (filter (\<lambda>kv. fst kv \<noteq> js ''__proto__'') kvs)) k v"
    by (simp only: snoc)
  also have "\<dots> = firstSeen (filter (\<lambda>kv. fst kv \<noteq> js ''__proto__'') (kvs @ [kv]))"
    by (simp add: kv assign_def firstSeen_snoc firstSeen_keys)
  finally show ?case .
qed

lemma fields_closed_form:
  "wellFormed es \<Longrightarrow> fieldsObj (run config rt es) = storedFields es"
  by (simp add: fields_run assign_firstSeen storedFields_def)

subsection \<open>Listeners and completed files\<close>

lemma table_snoc:
  "fileTable (es @ [e]) = fileTable es @ fileInfo e"
  "chunksOf i (es @ [e]) = chunksOf i es @ chunkOf i e"
  by (simp_all add: fileTable_def chunksOf_def)

lemma announced_table: "announcedIds es = map fst (fileTable es)"
proof (induction es rule: rev_induct)
  case Nil
  show ?case by (simp add: announcedIds_def fileTable_def)
next
  case (snoc e es)
  then show ?case by (cases e) (simp_all add: ids_snoc table_snoc)
qed

lemma wf_announced_distinct: "wellFormed es \<Longrightarrow> distinct (announcedIds es)"
proof (induction es rule: rev_induct)
  case Nil
  show ?case by (simp add: announcedIds_def)
next
  case (snoc e es)
  then show ?case by (cases e) (auto simp: ids_snoc wellFormed_snoc)
qed

lemma chunks_unannounced:
  "wellFormed es \<Longrightarrow> i \<notin> set (announcedIds es) \<Longrightarrow> chunksOf i es = []"
proof (induction es rule: rev_induct)
  case Nil
  show ?case by (simp add: chunksOf_def)
next
  case (snoc e es)
  then show ?case
    by (cases e) (auto simp: ids_snoc table_snoc wellFormed_snoc live_def)
qed

lemma pushChunk_append:
  "pushChunk i chunk (xs @ ys) = pushChunk i chunk xs @ pushChunk i chunk ys"
  by (simp add: pushChunk_def)

lemma pushChunk_listenerOf:
  "pushChunk j chunk (listenerOf es info) = listenerOf (es @ [Data j chunk]) info"
  by (cases info) (auto simp: listenerOf_def pushChunk_def table_snoc)

lemma pushChunk_listeners:
  "pushChunk j chunk (concat (map (listenerOf es) tbl)) =
   concat (map (listenerOf (es @ [Data j chunk])) tbl)"
  by (induction tbl) (simp_all add: pushChunk_append pushChunk_listenerOf, simp add: pushChunk_def)

lemma listenerOf_same:
  "chunkOf (fst info) e = [] \<Longrightarrow> listenerOf (es @ [e]) info = listenerOf es info"
  by (cases info) (simp add: listenerOf_def table_snoc)

lemma listeners_same:
  "\<forall>i. chunkOf i e = [] \<Longrightarrow>
   concat (map (listenerOf (es @ [e])) tbl) = concat (map (listenerOf es) tbl)"
  by (induction tbl) (simp_all add: listenerOf_same)

lemma streams_closed_form:
  "wellFormed es \<Longrightarrow> streams (run config rt es) = concat (map (listenerOf es) (fileTable es))"
proof (induction es rule: rev_induct)
  case Nil
  show ?case by (simp add: run_def initial_def fileTable_def)
next
  case (snoc e es)
  then have wf: "wellFormed es" and adm: "admissible es e"
    by (simp_all add: wellFormed_snoc)
  note IH = snoc.IH [OF wf]
  have step: "streams (run config rt (es @ [e])) =
     (case e of
        File i name filename mimeType \<Rightarrow>
          if noFilename filename then concat (map (listenerOf es) (fileTable es))
          else concat (map (listenerOf es) (fileTable es)) @
               [(i, \<lparr>s_name = name, s_filename = orEmpty filename,
                      s_mimeType = mimeType, s_chunks = []\<rparr>)]
      | Data i chunk \<Rightarrow> pushChunk i chunk (concat (map (listenerOf es) (fileTable es)))
      | _ \<Rightarrow> concat (map (listenerOf es) (fileTable es)))"
    by (simp only: run_snoc_on [OF wf] on_streams IH)
  show ?case
  proof (cases e)
    case (File i name filename mimeType)
    with adm have "i \<notin> set (announcedIds es)" by simp
    then have empty: "chunksOf i es = []" using chunks_unannounced [OF wf] by simp
    have same: "concat (map (listenerOf (es @ [e])) (fileTable es)) =
                concat (map (listenerOf es) (fileTable es))"
      using File by (intro listeners_same) simp
    have new: "listenerOf (es @ [e]) (i, name, filename, mimeType) =
        (if noFilename filename then []
         else [(i, \<lparr>s_name = name, s_filename = orEmpty filename, s_mimeType = mimeType,
                    s_chunks = []\<rparr>)])"
      using File empty by (simp add: listenerOf_def table_snoc)
    have "streams (run config rt (es @ [e])) =
          concat (map (listenerOf es) (fileTable es)) @
          (if noFilename filename then []
           else [(i, \<lparr>s_name = name, s_filename = orEmpty filename, s_mimeType = mimeType,
                      s_chunks = []\<rparr>)])"
      unfolding step using File by simp
    also have "\<dots> = concat (map (listenerOf (es @ [e])) (fileTable es)) @
                     listenerOf (es @ [e]) (i, name, filename, mimeType)"
      by (simp only: same new)
    also have "\<dots> = concat (map (listenerOf (es @ [e])) (fileTable (es @ [e])))"
      using File by (simp add: table_snoc)
    finally show ?thesis .
  next
    case (Data j chunk)
    then show ?thesis
      unfolding step by (simp add: table_snoc pushChunk_listeners)
  next
    case (Field name v)
    then have same: "concat (map (listenerOf (es @ [e])) (fileTable es)) =
                concat (map (listenerOf es) (fileTable es))"
      by (intro listeners_same) simp
    show ?thesis
      unfolding step using Field by (simp add: table_snoc same [unfolded Field])
  next
    case (End i)
    then have same: "concat (map (listenerOf (es @ [e])) (fileTable es)) =
                concat (map (listenerOf es) (fileTable es))"
      by (intro listeners_same) simp
    show ?thesis
      unfolding step using End by (simp add: table_snoc same [unfolded End])
  next
    case (FileError i err)
    then have same: "concat (map (listenerOf (es @ [e])) (fileTable es)) =
                concat (map (listenerOf es) (fileTable es))"
      by (intro listeners_same) simp
    show ?thesis
      unfolding step using FileError by (simp add: table_snoc same [unfolded FileError])
  next
    case Finish
    then have same: "concat (map (listenerOf (es @ [e])) (fileTable es)) =
                concat (map (listenerOf es) (fileTable es))"
      by (intro listeners_same) simp
    show ?thesis
      unfolding step using Finish by (simp add: table_snoc same [unfolded Finish])
  next
    case (ParseError err)
    then have same: "concat (map (listenerOf (es @ [e])) (fileTable es)) =
                concat (map (listenerOf es) (fileTable es))"
      by (intro listeners_same) simp
    show ?thesis
      unfolding step using ParseError by (simp add: table_snoc same [unfolded ParseError])
  qed
qed

lemma map_of_listeners:
  "distinct (map fst tbl) \<Longrightarrow>
   map_of (concat (map (listenerOf es) tbl)) i =
     (case map_of tbl i of
        None \<Rightarrow> None
      | Some (name, filename, mimeType) \<Rightarrow>
          if noFilename filename then None
          else Some \<lparr>s_name = name, s_filename = orEmpty filename, s_mimeType = mimeType,
                     s_chunks = chunksOf i es\<rparr>)"
proof (induction tbl)
  case Nil
  show ?case by simp
next
  case (Cons info tbl)
  obtain j name filename mimeType where info: "info = (j, name, filename, mimeType)"
    by (cases info)
  have hd: "listenerOf es (j, name, filename, mimeType) =
        (if noFilename filename then []
         else [(j, \<lparr>s_name = name, s_filename = orEmpty filename, s_mimeType = mimeType,
                    s_chunks = chunksOf j es\<rparr>)])"
    by (simp add: listenerOf_def)
  from Cons have IH: "map_of (concat (map (listenerOf es) tbl)) i =
     (case map_of tbl i of
        None \<Rightarrow> None
      | Some (name, filename, mimeType) \<Rightarrow>
          if noFilename filename then None
          else Some \<lparr>s_name = name, s_filename = orEmpty filename, s_mimeType = mimeType,
                     s_chunks = chunksOf i es\<rparr>)"
    by simp
  show ?case
  proof (cases "j = i")
    case True
    with Cons.prems info have "i \<notin> fst ` set tbl" by auto
    then have none: "map_of tbl i = None" by (simp add: map_of_eq_None_iff)
    with IH have "map_of (concat (map (listenerOf es) tbl)) i = None" by simp
    moreover from True hd have "listenerOf es (i, name, filename, mimeType) =
        (if noFilename filename then []
         else [(i, \<lparr>s_name = name, s_filename = orEmpty filename, s_mimeType = mimeType,
                    s_chunks = chunksOf i es\<rparr>)])" by simp
    ultimately show ?thesis using True
      by (simp add: info map_add_def)
  next
    case False
    with IH show ?thesis
      by (simp add: hd info map_add_def)
  qed
qed

lemma completedEntry_stable:
  assumes wf: "wellFormed (es @ [e])" and i: "i \<in> set (endedIds es)"
  shows "completedEntry (es @ [e]) i = completedEntry es i"
proof -
  from wf have wfes: "wellFormed es" and adm: "admissible es e"
    by (simp_all add: wellFormed_snoc)
  from i have cl: "i \<in> set (closedIds es)" using ended_closed by blast
  then have an: "i \<in> set (announcedIds es)" using wf_closed [OF wfes] by blast
  show ?thesis
  proof (cases e)
    case (File j name filename mimeType)
    from an have "i \<in> dom (map_of (fileTable es))"
      by (simp add: announced_table dom_map_of_conv_image_fst)
    then have "map_of (fileTable es @ [(j, name, filename, mimeType)]) i = map_of (fileTable es) i"
      by (simp add: map_add_dom_app_simps)
    with File show ?thesis
      by (auto simp: completedEntry_def table_snoc payloadOf_def split: option.splits)
  next
    case (Data j chunk)
    with adm cl have "j \<noteq> i" by (auto simp: live_def)
    with Data show ?thesis
      by (auto simp: completedEntry_def table_snoc payloadOf_def split: option.splits)
  qed (auto simp: completedEntry_def table_snoc payloadOf_def split: option.splits)
qed

lemma completedEntry_End: "completedEntry (es @ [End i]) j = completedEntry es j"
  by (auto simp: completedEntry_def table_snoc payloadOf_def split: option.splits)

lemma completedEntries_snoc:
  assumes wf: "wellFormed (es @ [e])"
  shows "completedEntries (es @ [e]) =
         completedEntries es @ concat (map (completedEntry es) (ends e))"
proof -
  have "concat (map (completedEntry (es @ [e])) (endedIds es)) =
        concat (map (completedEntry es) (endedIds es))"
    by (intro arg_cong [where f = concat] map_cong refl completedEntry_stable [OF wf])
  moreover have "concat (map (completedEntry (es @ [e])) (ends e)) =
                 concat (map (completedEntry es) (ends e))"
    by (cases e) (simp_all add: completedEntry_End)
  ultimately show ?thesis
    by (simp add: completedEntries_def ids_snoc)
qed

lemma files_closed_form:
  "wellFormed es \<Longrightarrow> files (run config rt es) = completedEntries es"
proof (induction es rule: rev_induct)
  case Nil
  show ?case by (simp add: run_def initial_def completedEntries_def endedIds_def)
next
  case (snoc e es)
  then have wf: "wellFormed es" by (simp add: wellFormed_snoc)
  note IH = snoc.IH [OF wf]
  have d: "distinct (map fst (fileTable es))"
    using wf_announced_distinct [OF wf] by (simp add: announced_table)
  have step: "files (run config rt (es @ [e])) =
     completedEntries es @
     (case e of
        End i \<Rightarrow>
          (case map_of (concat (map (listenerOf es) (fileTable es))) i of
             None \<Rightarrow> []
           | Some st \<Rightarrow>
               if concat (s_chunks st) = [] then []
               else [\<lparr>f_name = s_name st, f_filename = s_filename st,
                      f_type = s_mimeType st, f_buffer = concat (s_chunks st),
                      f_size = length (concat (s_chunks st))\<rparr>])
      | _ \<Rightarrow> [])"
    by (simp only: run_snoc_on [OF wf] on_files IH streams_closed_form [OF wf])
  show ?case
    unfolding completedEntries_snoc [OF snoc.prems] step
    by (cases e)
      (auto simp: map_of_listeners [OF d] completedEntry_def payloadOf_def
        split: option.splits)
qed

subsection \<open>When the upload is sent\<close>

lemma trim_Nil: "trim [] = []"
  by (simp add: trim_def)

lemma forwardRequest_valid:
  assumes "trim (MAILER_FORM_ID config) \<noteq> []" and "requests s = []" and "outcome s = None"
  shows "forwardRequest config rt s =
         s\<lparr>requests := [theRequest config rt (fieldsObj s) (files s)],
           outcome := Some (answer rt (theRequest config rt (fieldsObj s) (files s)))\<rparr>"
proof -
  from assms(1) have "MAILER_FORM_ID config \<noteq> []" using trim_Nil by auto
  with assms show ?thesis
    by (simp add: forwardRequest_def settle_def Let_def theRequest_def answer_def
        split: sum.splits)
qed

lemma forwardRequest_invalid:
  assumes "trim (MAILER_FORM_ID config) = []"
  shows "requests (forwardRequest config rt s) = requests s"
  using assms by (simp add: forwardRequest_def settle_def Let_def split: option.splits)

lemma run_ready:
  assumes wf: "wellFormed es" and r: "ready es" and v: "trim (MAILER_FORM_ID config) \<noteq> []"
  shows "requests (run config rt es) =
           [theRequest config rt (storedFields es) (completedEntries es)]"
    and "outcome (run config rt es) =
           Some (answer rt (theRequest config rt (storedFields es) (completedEntries es)))"
proof -
  let ?s = "run config rt es"
  from tracks_run [OF wf, of config rt] r
  have fx: "?s = forwardRequest config rt (unsettled ?s)" by (simp add: tracks_def)
  have u: "requests (unsettled ?s) = []" "outcome (unsettled ?s) = None"
    "fieldsObj (unsettled ?s) = storedFields es" "files (unsettled ?s) = completedEntries es"
    by (simp_all add: unsettled_def fields_closed_form [OF wf] files_closed_form [OF wf])
  from forwardRequest_valid [OF v u(1) u(2), of rt]
  have "forwardRequest config rt (unsettled ?s) =
        (unsettled ?s)\<lparr>requests := [theRequest config rt (storedFields es) (completedEntries es)],
           outcome := Some (answer rt (theRequest config rt (storedFields es) (completedEntries es)))\<rparr>"
    by (simp only: u)
  with fx have eq: "?s = (unsettled ?s)\<lparr>requests := [theRequest config rt (storedFields es) (completedEntries es)],
           outcome := Some (answer rt (theRequest config rt (storedFields es) (completedEntries es)))\<rparr>"
    by simp
  show "requests ?s = [theRequest config rt (storedFields es) (completedEntries es)]"
    by (subst eq) simp
  show "outcome ?s = Some (answer rt (theRequest config rt (storedFields es) (completedEntries es)))"
    by (subst eq) simp
qed

lemma run_not_ready:
  assumes wf: "wellFormed es" and r: "\<not> ready es"
  shows "requests (run config rt es) = []"
    and "outcome (run config rt es) = parseFailure es"
  using tracks_run [OF wf, of config rt] r by (simp_all add: tracks_def)

lemma run_invalid:
  assumes wf: "wellFormed es" and v: "trim (MAILER_FORM_ID config) = []"
  shows "requests (run config rt es) = []"
proof (cases "ready es")
  case True
  let ?s = "run config rt es"
  from tracks_run [OF wf, of config rt] True
  have fx: "?s = forwardRequest config rt (unsettled ?s)" by (simp add: tracks_def)
  have "requests (forwardRequest config rt (unsettled ?s)) = []"
    by (simp add: forwardRequest_invalid [OF v] unsettled_def)
  with fx show ?thesis by simp
next
  case False
  then show ?thesis using run_not_ready [OF wf] by simp
qed

lemma run_counters:
  assumes wf: "wellFormed es"
  shows "pendingFiles (run config rt es) = opened es"
    and "completedFiles (run config rt es) = drained es"
    and "fieldsProcessed (run config rt es) = (Finish \<in> set es)"
  using tracks_run [OF wf, of config rt] by (simp_all add: tracks_def)

text \<open>
  C1. Whatever the order in which field, file, data, end and finish events arrive, the
  upload request is sent exactly when the parser has finished and as many file streams
  have ended as were given listeners (those with a usable filename), and it is sent
  once; with no such stream it is sent as soon as the parser has finished. The
  handler's counters are these numbers.
\<close>

theorem forward_exactly_when_complete:
  assumes "wellFormed es" and "trim (MAILER_FORM_ID config) \<noteq> []"
  shows "pendingFiles (run config rt es) = opened es \<and>
         completedFiles (run config rt es) = drained es \<and>
         fieldsProcessed (run config rt es) = (Finish \<in> set es) \<and>
         length (requests (run config rt es)) =
           (if Finish \<in> set es \<and> drained es = opened es then 1 else 0) \<and>
         (if opened es = 0
          then length (requests (run config rt es)) = (if Finish \<in> set es then 1 else 0)
          else True)"
proof -
  have len: "length (requests (run config rt es)) =
           (if Finish \<in> set es \<and> drained es = opened es then 1 else 0)"
  proof (cases "ready es")
    case True
    then show ?thesis using run_ready(1) [OF assms(1) True assms(2), of rt]
      by (simp add: ready_def)
  next
    case False
    then show ?thesis using run_not_ready(1) [OF assms(1) False, of config rt]
      by (simp add: ready_def)
  qed
  have "opened es = 0 \<Longrightarrow> drained es = opened es"
    using drained_le_opened [OF assms(1)] by simp
  with len show ?thesis
    using run_counters [OF assms(1), of config rt] by auto
qed

lemma exampleUpload_wellFormed: "wellFormed exampleUpload"
  by (simp add: exampleUpload_def wellFormed_def parserOpen_def live_def announcedIds_def
      closedIds_def listenedIds_def noFilename_def trim_def isWhiteSpace_def js_def)

lemma exampleConfig_valid: "trim (MAILER_FORM_ID exampleConfig) \<noteq> []"
  by (simp add: exampleConfig_def trim_def isWhiteSpace_def js_def)

lemma exampleUpload_counts:
  "opened exampleUpload = 1" "drained exampleUpload = 1" "Finish \<in> set exampleUpload"
  by (simp_all add: exampleUpload_def opened_def drained_def drainedIds_def endedIds_def
      listenedIds_def noFilename_def trim_def isWhiteSpace_def js_def)

theorem forward_exactly_when_complete_witness:
  "wellFormed exampleUpload \<and> trim (MAILER_FORM_ID exampleConfig) \<noteq> [] \<and>
   pendingFiles (run exampleConfig exampleRuntime exampleUpload) = 1 \<and>
   completedFiles (run exampleConfig exampleRuntime exampleUpload) = 1 \<and>
   fieldsProcessed (run exampleConfig exampleRuntime exampleUpload) \<and>
   length (requests (run exampleConfig exampleRuntime exampleUpload)) = 1"
  using forward_exactly_when_complete
          [OF exampleUpload_wellFormed exampleConfig_valid, of exampleRuntime]
        exampleUpload_wellFormed exampleConfig_valid
  by (simp add: exampleUpload_counts)

subsection \<open>Configuration and JSON bodies\<close>

lemma truthy_orElse: "truthy (orElse a b) = (truthy a \<or> truthy b)"
  by (auto simp: truthy_def orElse_def split: option.splits)

lemma orEmpty_orElse_empty: "orEmpty (orElse a (Some [])) = orEmpty a"
  by (simp add: orEmpty_def orElse_def split: option.splits)

text \<open>
  C9. A POST for which one of the three settings is given neither explicitly nor by the
  environment (or only as an empty string) is answered with status 500, success false
  and the message naming the missing configuration, and nothing is sent downstream.
\<close>

theorem missing_configuration_fails_fast:
  assumes "httpMethod event = js ''POST''"
    and "\<not> (truthy (baseUrl config) \<or> truthy (env_MAILER_BASE_URL env)) \<or>
         \<not> (truthy (formId config) \<or> truthy (env_MAILER_FORM_ID env)) \<or>
         \<not> (truthy (apiKey config) \<or> truthy (env_MAILER_FORM_API_KEY env))"
  shows "createMailerHandler config env rt event =
           (Some \<lparr>statusCode = 500, headers = jsonHeaders,
                   body = JObj [(js ''success'', JBool False),
                                (js ''error'', JStr missingConfigurationMessage)]\<rparr>, [])"
  using assms by (auto simp: createMailerHandler_def truthy_orElse Let_def)

theorem missing_configuration_fails_fast_witness:
  "httpMethod malformedEvent = js ''POST'' \<and>
   \<not> (truthy (apiKey exampleHandlerConfig) \<or> truthy (env_MAILER_FORM_API_KEY emptyEnv)) \<and>
   createMailerHandler exampleHandlerConfig emptyEnv exampleRuntime malformedEvent =
     (Some \<lparr>statusCode = 500, headers = jsonHeaders,
             body = JObj [(js ''success'', JBool False),
                          (js ''error'', JStr missingConfigurationMessage)]\<rparr>, [])"
proof -
  have p: "httpMethod malformedEvent = js ''POST''" by (simp add: malformedEvent_def)
  have m: "\<not> (truthy (apiKey exampleHandlerConfig) \<or> truthy (env_MAILER_FORM_API_KEY emptyEnv))"
    by (simp add: exampleHandlerConfig_def emptyEnv_def truthy_def)
  from missing_configuration_fails_fast [OF p, of exampleHandlerConfig emptyEnv exampleRuntime] m p
  show ?thesis by blast
qed

text \<open>
  C10. On the JSON path (a POST with complete configuration whose content type does
  not mention multipart/form-data), a non-empty body that \<^verbatim>\<open>JSON.parse\<close> rejects is
  answered with status 500, success false and the parser's message, and nothing is
  sent downstream.
\<close>

theorem invalid_json_body_rejected:
  assumes "httpMethod event = js ''POST''"
    and "truthy (baseUrl config) \<or> truthy (env_MAILER_BASE_URL env)"
    and "truthy (formId config) \<or> truthy (env_MAILER_FORM_ID env)"
    and "truthy (apiKey config) \<or> truthy (env_MAILER_FORM_API_KEY env)"
    and "\<not> isMultipart event"
    and "evBody event = Some b" and "b \<noteq> []"
    and "jsonParse rt b = Inl err" and "err \<noteq> []"
  shows "createMailerHandler config env rt event =
           (Some \<lparr>statusCode = 500, headers = jsonHeaders,
                   body = JObj [(js ''success'', JBool False), (js ''error'', JStr err)]\<rparr>, [])"
proof -
  have "orEmpty (orElse (evBody event) (Some (js ''{}''))) = b"
    using assms(6,7) by (simp add: orElse_def orEmpty_def)
  then show ?thesis
    using assms
    by (simp add: createMailerHandler_def truthy_orElse Let_def handleJsonRequest_def
        errorResponse_def awaitResult_def effectiveConfig_def)
qed

theorem invalid_json_body_rejected_witness:
  "httpMethod malformedEvent = js ''POST'' \<and>
   truthy (baseUrl exampleHandlerConfig) \<and> truthy (formId exampleHandlerConfig) \<and>
   truthy (env_MAILER_FORM_API_KEY exampleEnv) \<and> \<not> isMultipart malformedEvent \<and>
   evBody malformedEvent = Some (js ''{oops'') \<and>
   jsonParse strictRuntime (js ''{oops'') = Inl (js ''Unexpected token o in JSON'') \<and>
   createMailerHandler exampleHandlerConfig exampleEnv strictRuntime malformedEvent =
     (Some \<lparr>statusCode = 500, headers = jsonHeaders,
             body = JObj [(js ''success'', JBool False),
                          (js ''error'', JStr (js ''Unexpected token o in JSON''))]\<rparr>, [])"
proof -
  have p: "httpMethod malformedEvent = js ''POST''" by (simp add: malformedEvent_def)
  have c1: "truthy (baseUrl exampleHandlerConfig) \<or> truthy (env_MAILER_BASE_URL exampleEnv)"
    and c2: "truthy (formId exampleHandlerConfig) \<or> truthy (env_MAILER_FORM_ID exampleEnv)"
    and c3: "truthy (apiKey exampleHandlerConfig) \<or> truthy (env_MAILER_FORM_API_KEY exampleEnv)"
    and t: "truthy (baseUrl exampleHandlerConfig)" "truthy (formId exampleHandlerConfig)"
      "truthy (env_MAILER_FORM_API_KEY exampleEnv)"
    by (simp_all add: exampleHandlerConfig_def exampleEnv_def truthy_def js_def)
  have nm: "\<not> isMultipart malformedEvent"
    by (simp add: isMultipart_def requestContentType_def malformedEvent_def orEmpty_def
        orElse_def js_def)
  have b: "evBody malformedEvent = Some (js ''{oops'')" and ne: "js ''{oops'' \<noteq> []"
    by (simp_all add: malformedEvent_def js_def)
  have e: "jsonParse strictRuntime (js ''{oops'') = Inl (js ''Unexpected token o in JSON'')"
    and ne': "js ''Unexpected token o in JSON'' \<noteq> []"
    by (simp_all add: strictRuntime_def js_def)
  from invalid_json_body_rejected [OF p c1 c2 c3 nm b ne e ne'] p t nm b e
  show ?thesis by blast
qed

subsection \<open>Relaying the downstream answer\<close>

lemma multipart_sent:
  assumes contract: "\<forall>parser b. busboyNew rt (evHeaders event) = Inr parser \<longrightarrow> wellFormed (parser b)"
    and sent: "snd (handleMultipartRequest cfg rt event) \<noteq> []"
  shows "\<exists>req. handleMultipartRequest cfg rt event = (Some (answer rt req), [req])"
proof (cases "busboyNew rt (evHeaders event)")
  case (Inl err)
  with sent show ?thesis by (simp add: handleMultipartRequest_def)
next
  case (Inr parser)
  show ?thesis
  proof (cases "isBase64Encoded event \<and> evBody event = None")
    case True
    with sent Inr show ?thesis by (simp add: handleMultipartRequest_def)
  next
    case False
    define es where "es = parser (if isBase64Encoded event then fromBase64 rt (orEmpty (evBody event))
                              else latin1 (orEmpty (orElse (evBody event) (Some []))))"
    have eq: "handleMultipartRequest cfg rt event = (outcome (run cfg rt es), requests (run cfg rt es))"
      using Inr False by (auto simp: handleMultipartRequest_def Let_def es_def)
    have wf: "wellFormed es" using contract Inr by (simp add: es_def)
    from sent eq have ne: "requests (run cfg rt es) \<noteq> []" by simp
    have r: "ready es" using ne run_not_ready(1) [OF wf, of cfg rt] by blast
    have v: "trim (MAILER_FORM_ID cfg) \<noteq> []" using ne run_invalid [OF wf, of cfg rt] by blast
    from run_ready [OF wf r v, of rt] eq show ?thesis by simp
  qed
qed

lemma json_sent:
  assumes "snd (handleJsonRequest cfg rt event) \<noteq> []"
  shows "\<exists>req. handleJsonRequest cfg rt event =
           (Some (case fetch rt req of Inl err \<Rightarrow> Rejected err
                  | Inr resp \<Rightarrow> jsonResponse resp), [req])"
  using assms
  by (auto simp: handleJsonRequest_def Let_def split: sum.splits)

lemma handler_sent:
  assumes "snd (createMailerHandler config env rt event) \<noteq> []"
  shows "createMailerHandler config env rt event =
     (if isMultipart event
      then (awaitResult (fst (handleMultipartRequest (effectiveConfig config env) rt event)),
            snd (handleMultipartRequest (effectiveConfig config env) rt event))
      else (awaitResult (fst (handleJsonRequest (effectiveConfig config env) rt event)),
            snd (handleJsonRequest (effectiveConfig config env) rt event)))"
  using assms by (simp add: createMailerHandler_def Let_def split: if_splits)

lemma forwardResponse_not_json:
  assumes "\<not> str_includes (orEmpty (contentType resp)) (js ''application/json'')"
  shows "forwardResponse resp =
     Resolved \<lparr>statusCode = (if status resp = 0 then 500 else status resp),
               headers = jsonHeaders,
               body = JObj [(js ''success'', JBool False),
                            (js ''error'', JStr (invalidResponseMessage (status resp))),
                            (js ''details'',
                             JStr (if str_includes (orEmpty (contentType resp)) (js ''html'')
                                   then js ''Received HTML instead of JSON''
                                   else js ''Content-Type: '' @ orEmpty (contentType resp)))]\<rparr>"
  using assms by (simp add: forwardResponse_def orEmpty_orElse_empty Let_def)

lemma jsonResponse_not_json:
  assumes "\<not> str_includes (orEmpty (contentType resp)) (js ''application/json'')"
  shows "jsonResponse resp =
     Resolved \<lparr>statusCode = (if status resp = 0 then 500 else status resp),
               headers = jsonHeaders,
               body = JObj [(js ''success'', JBool False),
                            (js ''error'', JStr (invalidResponseMessage (status resp))),
                            (js ''details'',
                             JStr (if str_includes (orEmpty (contentType resp)) (js ''html'')
                                   then js ''Received HTML instead of JSON - check mailer URL''
                                   else js ''Content-Type: '' @ orEmpty (contentType resp)))]\<rparr>"
  using assms by (simp add: jsonResponse_def orEmpty_orElse_empty Let_def)

lemma forwardResponse_json:
  assumes "str_includes (orEmpty (contentType resp)) (js ''application/json'')"
    and "bodyJson resp = Inr upstream"
  shows "forwardResponse resp =
     Resolved (if 200 \<le> status resp \<and> status resp \<le> 299
               then \<lparr>statusCode = 200, headers = jsonHeaders,
                     body = JObj [(js ''success'', JBool True), (js ''data'', upstream)]\<rparr>
               else \<lparr>statusCode = status resp, headers = jsonHeaders, body = upstream\<rparr>)"
  using assms by (simp add: forwardResponse_def orEmpty_orElse_empty Let_def ok_def)

lemma jsonResponse_json:
  assumes "str_includes (orEmpty (contentType resp)) (js ''application/json'')"
    and "bodyJson resp = Inr upstream"
  shows "jsonResponse resp =
     Resolved (if 200 \<le> status resp \<and> status resp \<le> 299
               then \<lparr>statusCode = 200, headers = jsonHeaders,
                     body = JObj [(js ''success'', JBool True), (js ''data'', upstream)]\<rparr>
               else \<lparr>statusCode = status resp, headers = jsonHeaders, body = upstream\<rparr>)"
  using assms by (simp add: jsonResponse_def orEmpty_orElse_empty Let_def ok_def)

lemma handler_answer:
  assumes fetch: "\<forall>req. fetch rt req = Inr resp"
    and contract: "\<forall>parser b. busboyNew rt (evHeaders event) = Inr parser \<longrightarrow> wellFormed (parser b)"
    and sent: "snd (createMailerHandler config env rt event) \<noteq> []"
  shows "fst (createMailerHandler config env rt event) =
           awaitResult (Some (if isMultipart event then forwardResponse resp
                              else jsonResponse resp)) \<and>
         length (snd (createMailerHandler config env rt event)) = 1"
proof (cases "isMultipart event")
  case True
  from handler_sent [OF sent] True
  have eq: "createMailerHandler config env rt event =
      (awaitResult (fst (handleMultipartRequest (effectiveConfig config env) rt event)),
       snd (handleMultipartRequest (effectiveConfig config env) rt event))" by simp
  with sent have "snd (handleMultipartRequest (effectiveConfig config env) rt event) \<noteq> []"
    by simp
  from multipart_sent [OF contract this] obtain req where
    "handleMultipartRequest (effectiveConfig config env) rt event = (Some (answer rt req), [req])"
    by blast
  with eq fetch True show ?thesis by (simp add: answer_def)
next
  case False
  from handler_sent [OF sent] False
  have eq: "createMailerHandler config env rt event =
      (awaitResult (fst (handleJsonRequest (effectiveConfig config env) rt event)),
       snd (handleJsonRequest (effectiveConfig config env) rt event))" by simp
  with sent have "snd (handleJsonRequest (effectiveConfig config env) rt event) \<noteq> []"
    by simp
  from json_sent [OF this] obtain req where
    "handleJsonRequest (effectiveConfig config env) rt event =
       (Some (case fetch rt req of Inl err \<Rightarrow> Rejected err | Inr resp \<Rightarrow> jsonResponse resp), [req])"
    by blast
  with eq fetch False show ?thesis by simp
qed

text \<open>
  C5. When the downstream answer's content type does not mention application/json, a
  request that reached the downstream API (on the JSON or on the multipart path, the
  parser keeping its contract) is answered with success false, the upstream status (500
  for status 0), an error naming that status and a details string computed from the
  content type alone; the upstream body has no part in the response, and exactly one
  downstream call was made.
\<close>

theorem non_json_answer_is_protocol_error:
  assumes "\<forall>req. fetch rt req = Inr resp"
    and "\<not> str_includes (orEmpty (contentType resp)) (js ''application/json'')"
    and "\<forall>parser b. busboyNew rt (evHeaders event) = Inr parser \<longrightarrow> wellFormed (parser b)"
    and "snd (createMailerHandler config env rt event) \<noteq> []"
  shows "fst (createMailerHandler config env rt event) =
           Some \<lparr>statusCode = (if status resp = 0 then 500 else status resp),
                  headers = jsonHeaders,
                  body = JObj [(js ''success'', JBool False),
                               (js ''error'', JStr (invalidResponseMessage (status resp))),
                               (js ''details'',
                                JStr (if str_includes (orEmpty (contentType resp)) (js ''html'')
                                      then (if isMultipart event
                                            then js ''Received HTML instead of JSON''
                                            else js ''Received HTML instead of JSON - check mailer URL'')
                                      else js ''Content-Type: '' @ orEmpty (contentType resp)))]\<rparr> \<and>
         length (snd (createMailerHandler config env rt event)) = 1"
  using handler_answer [OF assms(1,3,4)]
        forwardResponse_not_json [OF assms(2)] jsonResponse_not_json [OF assms(2)]
  by (simp add: awaitResult_def)

text \<open>
  C6. When the downstream answer's content type mentions application/json and its body
  parses to a JSON value, a request that reached the downstream API (on either path) is
  answered, for a status outside 200..299, with that status and the upstream value as
  the whole body, and for a status within 200..299 with status 200 and the body
  \<open>{success: true, data: upstream}\<close>.
\<close>

theorem json_answer_is_relayed:
  assumes "\<forall>req. fetch rt req = Inr resp"
    and "str_includes (orEmpty (contentType resp)) (js ''application/json'')"
    and "bodyJson resp = Inr upstream"
    and "\<forall>parser b. busboyNew rt (evHeaders event) = Inr parser \<longrightarrow> wellFormed (parser b)"
    and "snd (createMailerHandler config env rt event) \<noteq> []"
  shows "fst (createMailerHandler config env rt event) =
           Some (if 200 \<le> status resp \<and> status resp \<le> 299
                 then \<lparr>statusCode = 200, headers = jsonHeaders,
                       body = JObj [(js ''success'', JBool True), (js ''data'', upstream)]\<rparr>
                 else \<lparr>statusCode = status resp, headers = jsonHeaders, body = upstream\<rparr>)"
  using handler_answer [OF assms(1,4,5)]
        forwardResponse_json [OF assms(2,3)] jsonResponse_json [OF assms(2,3)]
  by (simp add: awaitResult_def)

lemma example_effectiveConfig:
  "effectiveConfig exampleHandlerConfig exampleEnv =
     \<lparr>MAILER_BASE_URL = js ''https://mailer.example/api'', MAILER_FORM_ID = js ''contact'',
      MAILER_FORM_API_KEY = js ''secret''\<rparr>"
  by (simp add: effectiveConfig_def exampleHandlerConfig_def exampleEnv_def orElse_def
      orEmpty_def js_def)

lemma example_configured:
  "truthy (orElse (baseUrl exampleHandlerConfig) (env_MAILER_BASE_URL exampleEnv))"
  "truthy (orElse (formId exampleHandlerConfig) (env_MAILER_FORM_ID exampleEnv))"
  "truthy (orElse (apiKey exampleHandlerConfig) (env_MAILER_FORM_API_KEY exampleEnv))"
  by (simp_all add: exampleHandlerConfig_def exampleEnv_def orElse_def truthy_def js_def)

lemma exampleUpload_ready: "ready exampleUpload"
  by (simp add: ready_def exampleUpload_counts)

lemma uploadEvent_multipart: "isMultipart uploadEvent"
  by (simp add: isMultipart_def requestContentType_def uploadEvent_def orEmpty_def orElse_def
      js_def)

lemma jsonEvent_not_multipart: "\<not> isMultipart jsonEvent"
  by (simp add: isMultipart_def requestContentType_def jsonEvent_def orEmpty_def orElse_def
      js_def)

lemma upload_sent:
  assumes "busboyNew rt = (\<lambda>hs. Inr (\<lambda>b. exampleUpload))"
  shows "snd (createMailerHandler exampleHandlerConfig exampleEnv rt uploadEvent) \<noteq> []"
proof -
  have v: "trim (MAILER_FORM_ID (effectiveConfig exampleHandlerConfig exampleEnv)) \<noteq> []"
    by (simp add: example_effectiveConfig trim_def isWhiteSpace_def js_def)
  have "requests (run (effectiveConfig exampleHandlerConfig exampleEnv) rt exampleUpload) \<noteq> []"
    using run_ready(1) [OF exampleUpload_wellFormed exampleUpload_ready v, of rt] by simp
  moreover have "httpMethod uploadEvent = js ''POST''" "\<not> isBase64Encoded uploadEvent"
    by (simp_all add: uploadEvent_def)
  ultimately show ?thesis
    using assms
    by (simp add: createMailerHandler_def example_configured uploadEvent_multipart
        handleMultipartRequest_def Let_def)
qed

lemma json_sent_example:
  assumes "jsonParse rt = jsonParse exampleRuntime"
  shows "snd (createMailerHandler exampleHandlerConfig exampleEnv rt jsonEvent) \<noteq> []"
proof -
  have "httpMethod jsonEvent = js ''POST''" by (simp add: jsonEvent_def)
  then show ?thesis
    using assms
    by (simp add: createMailerHandler_def example_configured jsonEvent_not_multipart
        handleJsonRequest_def Let_def exampleRuntime_def split: sum.splits)
qed

lemma upload_contract:
  assumes "busboyNew rt = (\<lambda>hs. Inr (\<lambda>b. exampleUpload))"
  shows "\<forall>parser b. busboyNew rt (evHeaders event) = Inr parser \<longrightarrow> wellFormed (parser b)"
  using assms exampleUpload_wellFormed by auto

lemma invalidResponseMessage_503:
  "invalidResponseMessage 503 =
     js ''Mailer API returned invalid response (503). Check mailer logs.''"
  by (simp add: invalidResponseMessage_def showNat.simps js_def)

theorem non_json_answer_is_protocol_error_witness:
  "(\<forall>req. fetch htmlRuntime req = Inr htmlResponse) \<and>
   \<not> str_includes (orEmpty (contentType htmlResponse)) (js ''application/json'') \<and>
   snd (createMailerHandler exampleHandlerConfig exampleEnv htmlRuntime uploadEvent) \<noteq> [] \<and>
   snd (createMailerHandler exampleHandlerConfig exampleEnv htmlRuntime jsonEvent) \<noteq> [] \<and>
   fst (createMailerHandler exampleHandlerConfig exampleEnv htmlRuntime uploadEvent) =
     Some \<lparr>statusCode = 503, headers = jsonHeaders,
            body = JObj [(js ''success'', JBool False),
                         (js ''error'',
                          JStr (js ''Mailer API returned invalid response (503). Check mailer logs.'')),
                         (js ''details'', JStr (js ''Received HTML instead of JSON''))]\<rparr> \<and>
   fst (createMailerHandler exampleHandlerConfig exampleEnv htmlRuntime jsonEvent) =
     Some \<lparr>statusCode = 503, headers = jsonHeaders,
            body = JObj [(js ''success'', JBool False),
                         (js ''error'',
                          JStr (js ''Mailer API returned invalid response (503). Check mailer logs.'')),
                         (js ''details'',
                          JStr (js ''Received HTML instead of JSON - check mailer URL''))]\<rparr> \<and>
   length (snd (createMailerHandler exampleHandlerConfig exampleEnv htmlRuntime uploadEvent)) = 1"
proof -
  have f: "\<forall>req. fetch htmlRuntime req = Inr htmlResponse"
    by (simp add: htmlRuntime_def)
  have b: "busboyNew htmlRuntime = (\<lambda>hs. Inr (\<lambda>b. exampleUpload))"
    and p: "jsonParse htmlRuntime = jsonParse exampleRuntime"
    by (simp_all add: htmlRuntime_def exampleRuntime_def)
  have n: "\<not> str_includes (orEmpty (contentType htmlResponse)) (js ''application/json'')"
    and h: "str_includes (orEmpty (contentType htmlResponse)) (js ''html'')"
    and st: "status htmlResponse = 503"
    by (simp_all add: htmlResponse_def orEmpty_def js_def)
  note u = upload_sent [OF b] and j = json_sent_example [OF p]
  from non_json_answer_is_protocol_error [OF f n upload_contract [OF b] u]
       non_json_answer_is_protocol_error [OF f n upload_contract [OF b] j]
       f n u j
  show ?thesis
    by (simp add: h st uploadEvent_multipart jsonEvent_not_multipart invalidResponseMessage_503)
qed

theorem json_answer_is_relayed_witness:
  "(\<forall>req. fetch refusingRuntime req = Inr refusalResponse) \<and>
   (\<forall>req. fetch exampleRuntime req = Inr exampleResponse) \<and>
   str_includes (orEmpty (contentType refusalResponse)) (js ''application/json'') \<and>
   snd (createMailerHandler exampleHandlerConfig exampleEnv refusingRuntime uploadEvent) \<noteq> [] \<and>
   snd (createMailerHandler exampleHandlerConfig exampleEnv exampleRuntime jsonEvent) \<noteq> [] \<and>
   fst (createMailerHandler exampleHandlerConfig exampleEnv refusingRuntime uploadEvent) =
     Some \<lparr>statusCode = 422, headers = jsonHeaders,
            body = JObj [(js ''success'', JBool False),
                         (js ''error'', JStr (js ''Invalid email''))]\<rparr> \<and>
   fst (createMailerHandler exampleHandlerConfig exampleEnv exampleRuntime jsonEvent) =
     Some \<lparr>statusCode = 200, headers = jsonHeaders,
            body = JObj [(js ''success'', JBool True),
                         (js ''data'', JObj [(js ''id'', JStr (js ''42''))])]\<rparr>"
proof -
  have f: "\<forall>req. fetch refusingRuntime req = Inr refusalResponse"
    and f': "\<forall>req. fetch exampleRuntime req = Inr exampleResponse"
    by (simp_all add: refusingRuntime_def exampleRuntime_def)
  have b: "busboyNew refusingRuntime = (\<lambda>hs. Inr (\<lambda>b. exampleUpload))"
    and b': "busboyNew exampleRuntime = (\<lambda>hs. Inr (\<lambda>b. exampleUpload))"
    by (simp_all add: refusingRuntime_def exampleRuntime_def)
  have c: "str_includes (orEmpty (contentType refusalResponse)) (js ''application/json'')"
    and c': "str_includes (orEmpty (contentType exampleResponse)) (js ''application/json'')"
    and v: "bodyJson refusalResponse =
              Inr (JObj [(js ''success'', JBool False), (js ''error'', JStr (js ''Invalid email''))])"
    and v': "bodyJson exampleResponse = Inr (JObj [(js ''id'', JStr (js ''42''))])"
    and st: "status refusalResponse = 422" "status exampleResponse = 200"
    by (simp_all add: refusalResponse_def exampleResponse_def orEmpty_def js_def)
  note u = upload_sent [OF b] and j = json_sent_example [OF refl]
  from json_answer_is_relayed [OF f c v upload_contract [OF b] u]
       json_answer_is_relayed [OF f' c' v' upload_contract [OF b'] j]
       f f' c u j
  show ?thesis by (simp add: st)
qed

subsection \<open>Files that are forwarded\<close>

lemma dropWhile_all: "(\<forall>x \<in> set (dropWhile P xs). P x) = (\<forall>x \<in> set xs. P x)"
proof
  assume a: "\<forall>x \<in> set (dropWhile P xs). P x"
  have "dropWhile P xs = []"
  proof (rule ccontr)
    assume ne: "dropWhile P xs \<noteq> []"
    then have "\<not> P (hd (dropWhile P xs))" by (rule hd_dropWhile)
    moreover from ne have "hd (dropWhile P xs) \<in> set (dropWhile P xs)" by simp
    ultimately show False using a by blast
  qed
  then show "\<forall>x \<in> set xs. P x" by (simp add: dropWhile_eq_Nil_conv)
next
  assume "\<forall>x \<in> set xs. P x"
  then show "\<forall>x \<in> set (dropWhile P xs). P x" by (meson set_dropWhileD)
qed

lemma trim_empty_iff: "trim s = [] \<longleftrightarrow> list_all isWhiteSpace s"
proof -
  have "trim s = [] \<longleftrightarrow> (\<forall>x \<in> set (dropWhile isWhiteSpace s). isWhiteSpace x)"
    by (simp add: trim_def dropWhile_eq_Nil_conv)
  then show ?thesis by (simp add: dropWhile_all list_all_iff)
qed

lemma noFilename_blank: "noFilename filename = blankFilename filename"
  by (cases filename) (auto simp: noFilename_def blankFilename_def trim_empty_iff)

lemma opened_usable: "opened es = length (filter usableFile es)"
proof (induction es rule: rev_induct)
  case Nil
  show ?case by (simp add: opened_def listenedIds_def)
next
  case (snoc e es)
  then show ?case by (cases e) (simp_all add: opened_def ids_snoc noFilename_blank)
qed

lemma table_mem: "(i, name, filename, mimeType) \<in> set (fileTable es) \<longleftrightarrow>
                  File i name filename mimeType \<in> set es"
proof (induction es)
  case Nil
  show ?case by (simp add: fileTable_def)
next
  case (Cons e es)
  then show ?case by (cases e) (auto simp: fileTable_def)
qed

lemma ended_mem: "i \<in> set (endedIds es) \<longleftrightarrow> End i \<in> set es"
proof (induction es)
  case Nil
  show ?case by (simp add: endedIds_def)
next
  case (Cons e es)
  then show ?case by (cases e) (auto simp: endedIds_def)
qed

lemma completedEntry_origin:
  assumes "e \<in> set (completedEntry es i)"
  shows "f_buffer e \<noteq> [] \<and> f_size e = length (f_buffer e) \<and>
         \<not> blankFilename (Some (f_filename e)) \<and> f_buffer e = payloadOf i es \<and>
         (\<exists>mimeType. File i (f_name e) (Some (f_filename e)) mimeType \<in> set es)"
proof (cases "map_of (fileTable es) i")
  case None
  with assms show ?thesis by (simp add: completedEntry_def)
next
  case (Some info)
  obtain name filename mimeType where info: "info = (name, filename, mimeType)"
    by (cases info)
  from Some info have m: "(i, name, filename, mimeType) \<in> set (fileTable es)"
    by (simp add: map_of_SomeD)
  show ?thesis
  proof (cases filename)
    case None
    with assms Some info show ?thesis by (simp add: completedEntry_def noFilename_def)
  next
    case (Some f)
    with assms \<open>map_of (fileTable es) i = Some info\<close> info m show ?thesis
      by (auto simp: completedEntry_def orEmpty_def noFilename_blank table_mem
          split: if_splits)
  qed
qed

lemma completedEntries_origin:
  assumes "e \<in> set (completedEntries es)"
  shows "f_buffer e \<noteq> [] \<and> f_size e = length (f_buffer e) \<and>
         \<not> blankFilename (Some (f_filename e)) \<and>
         (\<exists>i mimeType. File i (f_name e) (Some (f_filename e)) mimeType \<in> set es \<and>
                        End i \<in> set es \<and> f_buffer e = payloadOf i es)"
proof -
  from assms obtain i where i: "i \<in> set (endedIds es)" and e: "e \<in> set (completedEntry es i)"
    by (auto simp: completedEntries_def)
  from completedEntry_origin [OF e] i show ?thesis
    by (auto simp: ended_mem)
qed

lemma run_requests_body:
  assumes wf: "wellFormed es" and r: "r \<in> set (requests (run config rt es))"
  shows "r = theRequest config rt (storedFields es) (completedEntries es)"
proof -
  from r have ne: "requests (run config rt es) \<noteq> []" by auto
  have rd: "ready es" using ne run_not_ready(1) [OF wf, of config rt] by blast
  have v: "trim (MAILER_FORM_ID config) \<noteq> []" using ne run_invalid [OF wf, of config rt] by blast
  from run_ready(1) [OF wf rd v, of rt] r show ?thesis by simp
qed

text \<open>
  C7. A file part whose filename is undefined, empty or white space only is not counted
  as pending and gets no listeners; every entry of \<open>files\<close>, and so every file part of
  the re-encoded body, comes from a stream with a usable filename that ended with at
  least one byte. A stream with a usable filename that ends with no bytes is counted as
  completed and leaves no entry.
\<close>

theorem only_usable_nonempty_files_are_forwarded:
  assumes "wellFormed es"
  shows "pendingFiles (run config rt es) = length (filter usableFile es) \<and>
         completedFiles (run config rt es) = drained es \<and>
         (\<forall>e \<in> set (files (run config rt es)).
            f_buffer e \<noteq> [] \<and> \<not> blankFilename (Some (f_filename e)) \<and>
            (\<exists>i mimeType. File i (f_name e) (Some (f_filename e)) mimeType \<in> set es \<and>
                           End i \<in> set es \<and> f_buffer e = payloadOf i es)) \<and>
         (\<forall>r \<in> set (requests (run config rt es)).
            reqBody r = RawBuffer (multipartBody (makeBoundary rt 0) (trim (MAILER_FORM_ID config))
                                     (fieldsObj (run config rt es)) (files (run config rt es)))) \<and>
         (\<forall>i. i \<in> set (listenedIds es) \<and> End i \<in> set es \<and> payloadOf i es = [] \<longrightarrow>
              i \<in> set (drainedIds es) \<and> completedEntry es i = [])"
proof -
  note wf = assms
  have a: "pendingFiles (run config rt es) = length (filter usableFile es)"
    using run_counters(1) [OF wf, of config rt] by (simp add: opened_usable)
  have b: "completedFiles (run config rt es) = drained es"
    using run_counters(2) [OF wf, of config rt] .
  have c: "\<forall>e \<in> set (files (run config rt es)).
            f_buffer e \<noteq> [] \<and> \<not> blankFilename (Some (f_filename e)) \<and>
            (\<exists>i mimeType. File i (f_name e) (Some (f_filename e)) mimeType \<in> set es \<and>
                           End i \<in> set es \<and> f_buffer e = payloadOf i es)"
    using completedEntries_origin [of _ es] by (auto simp: files_closed_form [OF wf])
  have d: "\<forall>r \<in> set (requests (run config rt es)).
            reqBody r = RawBuffer (multipartBody (makeBoundary rt 0) (trim (MAILER_FORM_ID config))
                                     (fieldsObj (run config rt es)) (files (run config rt es)))"
  proof
    fix r
    assume "r \<in> set (requests (run config rt es))"
    from run_requests_body [OF wf this]
    show "reqBody r = RawBuffer (multipartBody (makeBoundary rt 0) (trim (MAILER_FORM_ID config))
                                     (fieldsObj (run config rt es)) (files (run config rt es)))"
      by (simp add: theRequest_def uploadRequest_def fields_closed_form [OF wf]
          files_closed_form [OF wf])
  qed
  have e: "\<forall>i. i \<in> set (listenedIds es) \<and> End i \<in> set es \<and> payloadOf i es = [] \<longrightarrow>
              i \<in> set (drainedIds es) \<and> completedEntry es i = []"
    by (auto simp: drainedIds_def ended_mem completedEntry_def split: option.splits)
  from a b c d e show ?thesis by blast
qed

lemma emptyUpload_wellFormed: "wellFormed emptyUpload"
  by (simp add: emptyUpload_def wellFormed_def parserOpen_def live_def announcedIds_def
      closedIds_def listenedIds_def noFilename_def trim_def isWhiteSpace_def js_def)

theorem only_usable_nonempty_files_are_forwarded_witness:
  "wellFormed emptyUpload \<and>
   length (filter usableFile emptyUpload) = 1 \<and>
   drained emptyUpload = 1 \<and>
   pendingFiles (run exampleConfig exampleRuntime emptyUpload) = 1 \<and>
   completedFiles (run exampleConfig exampleRuntime emptyUpload) = 1 \<and>
   files (run exampleConfig exampleRuntime emptyUpload) = [] \<and>
   length (requests (run exampleConfig exampleRuntime emptyUpload)) = 1"
proof -
  have u: "length (filter usableFile emptyUpload) = 1"
    by (simp add: emptyUpload_def blankFilename_def isWhiteSpace_def js_def)
  have d: "drained emptyUpload = 1"
    by (simp add: emptyUpload_def drained_def drainedIds_def endedIds_def listenedIds_def
        noFilename_def trim_def isWhiteSpace_def js_def)
  from only_usable_nonempty_files_are_forwarded
         [OF emptyUpload_wellFormed, of exampleConfig exampleRuntime]
  have pc: "pendingFiles (run exampleConfig exampleRuntime emptyUpload) =
              length (filter usableFile emptyUpload)"
    and cc: "completedFiles (run exampleConfig exampleRuntime emptyUpload) = drained emptyUpload"
    by blast+
  have "completedEntries emptyUpload = []"
    by (simp add: completedEntries_def completedEntry_def emptyUpload_def endedIds_def
        fileTable_def payloadOf_def chunksOf_def noFilename_def trim_def isWhiteSpace_def js_def)
  then have f: "files (run exampleConfig exampleRuntime emptyUpload) = []"
    by (simp only: files_closed_form [OF emptyUpload_wellFormed])
  have "ready emptyUpload"
    using d by (simp add: ready_def emptyUpload_def opened_def listenedIds_def noFilename_def
        trim_def isWhiteSpace_def js_def)
  from run_ready(1) [OF emptyUpload_wellFormed this exampleConfig_valid, of exampleRuntime]
  have r: "length (requests (run exampleConfig exampleRuntime emptyUpload)) = 1" by simp
  from emptyUpload_wellFormed u d pc cc f r show ?thesis by simp
qed

subsection \<open>Reserved fields\<close>

lemma run_skips_reserved:
  "foldl (deliver config rt) s es =
   foldl (deliver config rt) s (filter (\<lambda>e. \<not> reservedField e) es)"
proof (induction es arbitrary: s)
  case Nil
  show ?case by simp
next
  case (Cons e es)
  show ?case
  proof (cases "reservedField e")
    case True
    then obtain name v where "e = Field name v" "name = js ''form-name'' \<or> name = js ''bot-field''"
      by (cases e) auto
    then have "deliver config rt s e = s" by (auto simp: deliver_def)
    with True Cons show ?thesis by simp
  next
    case False
    with Cons show ?thesis by simp
  qed
qed

lemma accepted_not_reserved:
  "kv \<in> set (acceptedFields es) \<Longrightarrow> fst kv \<noteq> js ''form-name'' \<and> fst kv \<noteq> js ''bot-field''"
proof (induction es)
  case Nil
  then show ?case by (simp add: acceptedFields_def)
next
  case (Cons e es)
  then show ?case by (cases e) (auto simp: acceptedFields_def split: if_splits)
qed

lemma stored_not_reserved:
  "kv \<in> set (storedFields es) \<Longrightarrow> fst kv \<noteq> js ''form-name'' \<and> fst kv \<noteq> js ''bot-field''"
proof -
  assume "kv \<in> set (storedFields es)"
  then have "fst kv \<in> fst ` set (storedFields es)" by (rule imageI)
  then have "fst kv \<in> fst ` set (filter (\<lambda>kv. fst kv \<noteq> js ''__proto__'') (acceptedFields es))"
    by (simp only: storedFields_def firstSeen_keys)
  then obtain kv' where "kv' \<in> set (acceptedFields es)" "fst kv' = fst kv" by auto
  with accepted_not_reserved [of kv' es] show ?thesis by simp
qed

lemma json_request_form:
  assumes "req \<in> set (snd (handleJsonRequest config rt event))"
  shows "\<exists>formData. reqBody req = JsonText (JObj [(js ''formId'', JStr (MAILER_FORM_ID config)),
                                                  (js ''formData'', formData)]) \<and>
                     js ''form-name'' \<notin> set (topLevelKeys formData) \<and>
                     js ''bot-field'' \<notin> set (topLevelKeys formData)"
proof (cases "jsonParse rt (orEmpty (orElse (evBody event) (Some (js ''{}''))))")
  case (Inl err)
  with assms show ?thesis by (simp add: handleJsonRequest_def)
next
  case (Inr parsed)
  have keys: "js ''form-name'' \<notin> set (topLevelKeys b2) \<and> js ''bot-field'' \<notin> set (topLevelKeys b2)"
    if "deleteProperty parsed (js ''form-name'') = Inr b1"
      and "deleteProperty b1 (js ''bot-field'') = Inr b2" for b1 b2
    using that by (cases parsed) auto
  from assms Inr show ?thesis
    by (auto simp: handleJsonRequest_def Let_def keys split: sum.splits)
qed

text \<open>
  C8. On the JSON path, the \<open>formData\<close> of every request sent downstream has neither
  \<open>form-name\<close> nor \<open>bot-field\<close> among its keys. On the multipart path, the handler ends
  in the same state, with the same requests, as if the fields of these two names had
  never been delivered, whatever their values; the field store never holds them, and the
  body sent is built from that store.
\<close>

theorem reserved_fields_never_forwarded:
  assumes "wellFormed es"
  shows "(\<forall>req \<in> set (snd (handleJsonRequest config rt event)).
            \<exists>formData. reqBody req = JsonText (JObj [(js ''formId'', JStr (MAILER_FORM_ID config)),
                                                     (js ''formData'', formData)]) \<and>
                        js ''form-name'' \<notin> set (topLevelKeys formData) \<and>
                        js ''bot-field'' \<notin> set (topLevelKeys formData)) \<and>
         run config rt es = run config rt (filter (\<lambda>e. \<not> reservedField e) es) \<and>
         js ''form-name'' \<notin> fst ` set (fieldsObj (run config rt es)) \<and>
         js ''bot-field'' \<notin> fst ` set (fieldsObj (run config rt es)) \<and>
         (\<forall>req \<in> set (requests (run config rt es)).
            reqBody req = RawBuffer (multipartBody (makeBoundary rt 0) (trim (MAILER_FORM_ID config))
                                       (fieldsObj (run config rt es)) (files (run config rt es))))"
proof -
  note wf = assms
  have a: "\<forall>req \<in> set (snd (handleJsonRequest config rt event)).
            \<exists>formData. reqBody req = JsonText (JObj [(js ''formId'', JStr (MAILER_FORM_ID config)),
                                                     (js ''formData'', formData)]) \<and>
                        js ''form-name'' \<notin> set (topLevelKeys formData) \<and>
                        js ''bot-field'' \<notin> set (topLevelKeys formData)"
    using json_request_form by blast
  have b: "run config rt es = run config rt (filter (\<lambda>e. \<not> reservedField e) es)"
    unfolding run_def by (rule run_skips_reserved)
  have c: "js ''form-name'' \<notin> fst ` set (fieldsObj (run config rt es)) \<and>
           js ''bot-field'' \<notin> fst ` set (fieldsObj (run config rt es))"
  proof -
    have "k \<notin> fst ` set (storedFields es)"
      if "k = js ''form-name'' \<or> k = js ''bot-field''" for k
    proof
      assume "k \<in> fst ` set (storedFields es)"
      then obtain kv where "kv \<in> set (storedFields es)" "fst kv = k" by auto
      with stored_not_reserved [of kv es] that show False by blast
    qed
    then show ?thesis by (simp add: fields_closed_form [OF wf])
  qed
  have d: "\<forall>req \<in> set (requests (run config rt es)).
            reqBody req = RawBuffer (multipartBody (makeBoundary rt 0) (trim (MAILER_FORM_ID config))
                                       (fieldsObj (run config rt es)) (files (run config rt es)))"
  proof
    fix r
    assume "r \<in> set (requests (run config rt es))"
    from run_requests_body [OF wf this]
    show "reqBody r = RawBuffer (multipartBody (makeBoundary rt 0) (trim (MAILER_FORM_ID config))
                                     (fieldsObj (run config rt es)) (files (run config rt es)))"
      by (simp add: theRequest_def uploadRequest_def fields_closed_form [OF wf]
          files_closed_form [OF wf])
  qed
  from a b c d show ?thesis by blast
qed

lemma spamUpload_wellFormed: "wellFormed spamUpload"
  by (simp add: spamUpload_def wellFormed_def parserOpen_def js_def)

theorem reserved_fields_never_forwarded_witness:
  "wellFormed spamUpload \<and>
   run exampleConfig exampleRuntime spamUpload =
     run exampleConfig exampleRuntime [Field (js ''email'') (js ''a@b.com''), Finish] \<and>
   js ''form-name'' \<notin> fst ` set (fieldsObj (run exampleConfig exampleRuntime spamUpload)) \<and>
   js ''bot-field'' \<notin> fst ` set (fieldsObj (run exampleConfig exampleRuntime spamUpload))"
proof -
  have f: "filter (\<lambda>e. \<not> reservedField e) spamUpload =
           [Field (js ''email'') (js ''a@b.com''), Finish]"
    by (simp add: spamUpload_def js_def)
  from reserved_fields_never_forwarded
         [OF spamUpload_wellFormed, of exampleConfig exampleRuntime]
  have "run exampleConfig exampleRuntime spamUpload =
          run exampleConfig exampleRuntime (filter (\<lambda>e. \<not> reservedField e) spamUpload)"
    and "js ''form-name'' \<notin> fst ` set (fieldsObj (run exampleConfig exampleRuntime spamUpload))"
    and "js ''bot-field'' \<notin> fst ` set (fieldsObj (run exampleConfig exampleRuntime spamUpload))"
    by blast+
  with f spamUpload_wellFormed show ?thesis by simp
qed

subsection \<open>A file stream that fails\<close>

lemma closed_mem: "FileError i err \<in> set es \<Longrightarrow> i \<in> set (closedIds es)"
proof (induction es)
  case Nil
  then show ?case by simp
next
  case (Cons e es)
  then show ?case by (cases e) (auto simp: closedIds_def)
qed

lemma failed_stream_ids:
  "wellFormed es \<Longrightarrow> FileError i err \<in> set es \<Longrightarrow>
   i \<in> set (listenedIds es) \<and> i \<notin> set (endedIds es)"
proof (induction es rule: rev_induct)
  case Nil
  then show ?case by simp
next
  case (snoc e es)
  from snoc.prems have wf: "wellFormed es" and adm: "admissible es e"
    by (simp_all add: wellFormed_snoc)
  show ?case
  proof (cases "FileError i err \<in> set es")
    case True
    from snoc.IH [OF wf True] have IH: "i \<in> set (listenedIds es)" "i \<notin> set (endedIds es)"
      by simp_all
    from closed_mem [OF True] adm have "e \<noteq> End i" by (auto simp: live_def)
    with IH show ?thesis by (cases e) (auto simp: ids_snoc)
  next
    case False
    with snoc.prems have e: "e = FileError i err" by simp
    with adm have "i \<in> set (listenedIds es)" "i \<notin> set (closedIds es)"
      by (simp_all add: live_def)
    with e ended_closed [of es] show ?thesis by (auto simp: ids_snoc)
  qed
qed

lemma failed_stream_not_ready:
  assumes wf: "wellFormed es" and f: "FileError i err \<in> set es"
  shows "\<not> ready es"
proof
  assume "ready es"
  then have eq: "drained es = opened es" by (simp add: ready_def)
  have d: "distinct (drainedIds es)"
    using wf_ended_distinct [OF wf] by (simp add: drainedIds_def)
  have sub: "set (drainedIds es) \<subseteq> set (listenedIds es)"
    by (auto simp: drainedIds_def)
  have "card (set (drainedIds es)) = card (set (listenedIds es))"
    using eq d wf_listened_distinct [OF wf] by (simp add: drained_def opened_def distinct_card)
  with sub have "set (drainedIds es) = set (listenedIds es)"
    by (intro card_subset_eq) auto
  with failed_stream_ids [OF wf f] show False by (auto simp: drainedIds_def)
qed

text \<open>
  C3. What the handler does when a file stream that has listeners emits \<open>error\<close>: the
  error is logged by the stream's listener in that step, but whatever follows within the
  parser's contract, no upload request is ever sent, and the promise is settled only by
  a parser error (rejected), otherwise never.
\<close>

theorem failed_stream_blocks_forwarding:
  assumes "wellFormed es" and "FileError i err \<in> set es"
  shows "requests (run config rt es) = [] \<and> outcome (run config rt es) = parseFailure es"
  using run_not_ready [OF assms(1) failed_stream_not_ready [OF assms], of config rt]
  by simp

lemma brokenUpload_wellFormed: "wellFormed brokenUpload"
  by (simp add: brokenUpload_def wellFormed_def parserOpen_def live_def announcedIds_def
      closedIds_def listenedIds_def noFilename_def trim_def isWhiteSpace_def js_def)

theorem failed_stream_blocks_forwarding_witness:
  "wellFormed brokenUpload \<and>
   FileError 0 (js ''Unexpected end of file'') \<in> set brokenUpload \<and>
   Finish \<in> set brokenUpload \<and>
   requests (run exampleConfig exampleRuntime brokenUpload) = [] \<and>
   outcome (run exampleConfig exampleRuntime brokenUpload) = None \<and>
   errorLog (run exampleConfig exampleRuntime brokenUpload) =
     [FileStreamFailed (js ''resume.pdf'') (js ''Unexpected end of file'')] \<and>
   pendingFiles (run exampleConfig exampleRuntime brokenUpload) = 1 \<and>
   completedFiles (run exampleConfig exampleRuntime brokenUpload) = 0"
proof -
  have l: "errorLog (run exampleConfig exampleRuntime brokenUpload) =
             [FileStreamFailed (js ''resume.pdf'') (js ''Unexpected end of file'')]"
    and c: "pendingFiles (run exampleConfig exampleRuntime brokenUpload) = 1"
      "completedFiles (run exampleConfig exampleRuntime brokenUpload) = 0"
    by (simp_all add: run_def brokenUpload_def deliver_def initial_def noFilename_def trim_def
        isWhiteSpace_def orEmpty_def assign_def pushChunk_def checkAndForward_def js_def)
  have m: "FileError 0 (js ''Unexpected end of file'') \<in> set brokenUpload"
    and f: "Finish \<in> set brokenUpload"
    and p: "(parseFailure brokenUpload :: unit settled option) = None"
    by (simp_all add: brokenUpload_def parseFailure_def failures_def)
  from failed_stream_blocks_forwarding [OF brokenUpload_wellFormed m, of exampleConfig exampleRuntime]
       brokenUpload_wellFormed m f p l c
  show ?thesis by simp
qed

subsection \<open>The order of the parts\<close>

lemma concat_concat_map:
  "concat (map f (concat (map g xs))) = concat (map (\<lambda>x. concat (map f (g x))) xs)"
  by (induction xs) simp_all

lemma multipartBody_ordered:
  "multipartBody boundary formIdValue flds fls =
   orderedBody boundary formIdValue (filter forwardable (Object_entries flds)) fls"
  by (simp add: multipartBody_def buildParts_def orderedBody_def concat_concat_map)

lemma set_Object_entries: "set (Object_entries obj) = set obj"
  by (auto simp: Object_entries_def)

lemma Object_entries_plain:
  assumes "\<forall>kv \<in> set obj. arrayIndex (fst kv) = None"
  shows "Object_entries obj = obj"
proof -
  from assms have "filter (\<lambda>kv. arrayIndex (fst kv) \<noteq> None) obj = []"
    by (simp add: filter_empty_conv)
  moreover from assms have "filter (\<lambda>kv. arrayIndex (fst kv) = None) obj = obj"
    by (simp add: filter_id_conv)
  ultimately show ?thesis by (simp add: Object_entries_def)
qed

lemma forwardable_stored:
  "filter forwardable (Object_entries (storedFields es)) =
   filter (\<lambda>kv. fst kv \<noteq> js ''formId'') (Object_entries (storedFields es))"
proof (rule filter_cong [OF refl])
  fix kv
  assume "kv \<in> set (Object_entries (storedFields es))"
  then have "kv \<in> set (storedFields es)" by (simp add: set_Object_entries)
  from stored_not_reserved [OF this] show "forwardable kv = (fst kv \<noteq> js ''formId'')"
    by (simp add: forwardable_def)
qed

lemma request_body_ordered:
  assumes "wellFormed es" and "ready es" and "trim (MAILER_FORM_ID config) \<noteq> []"
  shows "map reqBody (requests (run config rt es)) =
           [RawBuffer (orderedBody (makeBoundary rt 0) (trim (MAILER_FORM_ID config))
                         (filter (\<lambda>kv. fst kv \<noteq> js ''formId'') (Object_entries (storedFields es)))
                         (completedEntries es))]"
  using run_ready(1) [OF assms, of rt]
  by (simp add: theRequest_def uploadRequest_def multipartBody_ordered forwardable_stored)

lemma entries_as_first_seen:
  assumes h: "\<forall>kv \<in> set (acceptedFields es). arrayIndex (fst kv) = None \<and> fst kv \<noteq> js ''__proto__''"
  shows "filter (\<lambda>kv. fst kv \<noteq> js ''formId'') (Object_entries (storedFields es)) =
         fieldsAsFirstSeen es"
proof -
  from h have same: "filter (\<lambda>kv. fst kv \<noteq> js ''__proto__'') (acceptedFields es) = acceptedFields es"
    by (simp add: filter_id_conv)
  have "\<forall>kv \<in> set (storedFields es). arrayIndex (fst kv) = None"
  proof
    fix kv
    assume "kv \<in> set (storedFields es)"
    then have "fst kv \<in> fst ` set (storedFields es)" by (rule imageI)
    then have "fst kv \<in> fst ` set (acceptedFields es)"
      by (simp only: storedFields_def firstSeen_keys same)
    with h show "arrayIndex (fst kv) = None" by auto
  qed
  from Object_entries_plain [OF this] show ?thesis
    by (simp add: fieldsAsFirstSeen_def storedFields_def same)
qed

text \<open>
  C4, as the code has it. The body of the upload request is the form-identifier part,
  then a part for every stored field not named \<open>formId\<close>, then a part for every
  completed file in the order of completion, then the closing line \<open>--boundary--\<close>. The
  stored fields are the non-reserved fields other than \<open>__proto__\<close> with their last
  values; they come with the names that are array indices first, in ascending numeric
  order, and the other names after them in first-seen order. Where no field name is an
  array index or \<open>__proto__\<close>, this is the first-seen order.
\<close>

theorem body_part_order:
  assumes "wellFormed es" and "ready es" and "trim (MAILER_FORM_ID config) \<noteq> []"
  shows "map reqBody (requests (run config rt es)) =
           [RawBuffer (orderedBody (makeBoundary rt 0) (trim (MAILER_FORM_ID config))
                         (filter (\<lambda>kv. fst kv \<noteq> js ''formId'') (Object_entries (storedFields es)))
                         (completedEntries es))] \<and>
         storedFields es = firstSeen (filter (\<lambda>kv. fst kv \<noteq> js ''__proto__'') (acceptedFields es)) \<and>
         Object_entries (storedFields es) =
           sort_key indexKey (filter (\<lambda>kv. arrayIndex (fst kv) \<noteq> None) (storedFields es)) @
           filter (\<lambda>kv. arrayIndex (fst kv) = None) (storedFields es) \<and>
         ((\<forall>kv \<in> set (acceptedFields es). arrayIndex (fst kv) = None \<and> fst kv \<noteq> js ''__proto__'') \<longrightarrow>
            filter (\<lambda>kv. fst kv \<noteq> js ''formId'') (Object_entries (storedFields es)) =
            fieldsAsFirstSeen es)"
  using request_body_ordered [OF assms, of rt] entries_as_first_seen [of es]
  by (simp add: storedFields_def Object_entries_def)

lemma exampleUpload_stored:
  "storedFields exampleUpload = [(js ''email'', js ''a@b.com'')]"
  by (simp add: storedFields_def acceptedFields_def exampleUpload_def firstSeen_def lastValue_def
      js_def)

lemma exampleUpload_completed:
  "completedEntries exampleUpload =
     [\<lparr>f_name = js ''cv'', f_filename = js ''resume.pdf'', f_type = js ''application/pdf'',
       f_buffer = [0x25, 0x50, 0x44, 0x46, 0x2D, 0x31], f_size = 6\<rparr>]"
  by (simp add: completedEntries_def completedEntry_def exampleUpload_def endedIds_def
      fileTable_def payloadOf_def chunksOf_def noFilename_def trim_def isWhiteSpace_def
      orEmpty_def js_def)

lemma email_not_index: "arrayIndex (js ''email'') = None"
  by (simp add: arrayIndex_def isDigit_def js_def)

theorem body_part_order_witness:
  "wellFormed exampleUpload \<and> ready exampleUpload \<and>
   trim (MAILER_FORM_ID exampleConfig) = js ''contact'' \<and>
   map reqBody (requests (run exampleConfig exampleRuntime exampleUpload)) =
     [RawBuffer (orderedBody (makeBoundary exampleRuntime 0) (js ''contact'')
        [(js ''email'', js ''a@b.com'')]
        [\<lparr>f_name = js ''cv'', f_filename = js ''resume.pdf'', f_type = js ''application/pdf'',
          f_buffer = [0x25, 0x50, 0x44, 0x46, 0x2D, 0x31], f_size = 6\<rparr>])]"
proof -
  have t: "trim (MAILER_FORM_ID exampleConfig) = js ''contact''"
    by (simp add: exampleConfig_def trim_def isWhiteSpace_def js_def)
  have e: "Object_entries [(js ''email'', js ''a@b.com'')] = [(js ''email'', js ''a@b.com'')]"
    by (rule Object_entries_plain) (simp add: email_not_index)
  have n: "js ''email'' \<noteq> js ''formId''" by (simp add: js_def)
  from body_part_order [OF exampleUpload_wellFormed exampleUpload_ready exampleConfig_valid,
         of exampleRuntime]
  have "map reqBody (requests (run exampleConfig exampleRuntime exampleUpload)) =
           [RawBuffer (orderedBody (makeBoundary exampleRuntime 0) (trim (MAILER_FORM_ID exampleConfig))
                         (filter (\<lambda>kv. fst kv \<noteq> js ''formId'') (Object_entries (storedFields exampleUpload)))
                         (completedEntries exampleUpload))]"
    by blast
  then show ?thesis
    using exampleUpload_wellFormed exampleUpload_ready
    by (simp add: t exampleUpload_stored exampleUpload_completed e n)
qed

lemma numberedUpload_wellFormed: "wellFormed numberedUpload"
  by (simp add: numberedUpload_def wellFormed_def parserOpen_def js_def)

lemma numberedUpload_ready: "ready numberedUpload"
  by (simp add: numberedUpload_def ready_def drained_def opened_def drainedIds_def
      endedIds_def listenedIds_def)

lemma numberedUpload_accepted:
  "acceptedFields numberedUpload = [(js ''b'', js ''x''), (js ''1'', js ''y'')]"
  by (simp add: acceptedFields_def numberedUpload_def js_def)

lemma numberedUpload_entries:
  "filter forwardable (Object_entries (storedFields numberedUpload)) =
     [(js ''1'', js ''y''), (js ''b'', js ''x'')]"
  by (simp add: storedFields_def numberedUpload_accepted firstSeen_def lastValue_def
      Object_entries_def arrayIndex_def isDigit_def digitsValue_def indexKey_def
      forwardable_def js_def)

lemma numberedUpload_claimed:
  "fieldsAsFirstSeen numberedUpload = [(js ''b'', js ''x''), (js ''1'', js ''y'')]"
  by (simp add: fieldsAsFirstSeen_def numberedUpload_accepted firstSeen_def lastValue_def js_def)

lemma numbered_parts_differ:
  "concat (map toBuffer (fieldSegments bnd (js ''1'', js ''y''))) @ rest1 \<noteq>
   concat (map toBuffer (fieldSegments bnd (js ''b'', js ''x''))) @ rest2"
  by (simp add: fieldSegments_def DQ_def CRLF_def js_def)

text \<open>
  C4 as stated fails: with the fields \<open>b\<close> and then \<open>1\<close>, the body does not have them in
  first-seen order (the part named \<open>1\<close> comes first).
\<close>

theorem first_seen_order_counterexample:
  "wellFormed numberedUpload \<and> ready numberedUpload \<and>
   map reqBody (requests (run exampleConfig exampleRuntime numberedUpload)) \<noteq>
     [RawBuffer (orderedBody (makeBoundary exampleRuntime 0) (trim (MAILER_FORM_ID exampleConfig))
                   (fieldsAsFirstSeen numberedUpload) (completedEntries numberedUpload))]"
proof -
  have "map reqBody (requests (run exampleConfig exampleRuntime numberedUpload)) =
        [RawBuffer (orderedBody (makeBoundary exampleRuntime 0) (trim (MAILER_FORM_ID exampleConfig))
           [(js ''1'', js ''y''), (js ''b'', js ''x'')] (completedEntries numberedUpload))]"
    using run_ready(1) [OF numberedUpload_wellFormed numberedUpload_ready exampleConfig_valid,
            of exampleRuntime]
    by (simp add: theRequest_def uploadRequest_def multipartBody_ordered numberedUpload_entries)
  moreover have
    "orderedBody bnd fid [(js ''1'', js ''y''), (js ''b'', js ''x'')] fls \<noteq>
     orderedBody bnd fid [(js ''b'', js ''x''), (js ''1'', js ''y'')] fls" for bnd fid fls
    using numbered_parts_differ [of bnd]
    by (simp add: orderedBody_def)
  ultimately show ?thesis
    using numberedUpload_wellFormed numberedUpload_ready
    by (simp add: numberedUpload_claimed)
qed

subsection \<open>Reading canonical bodies\<close>

lemma prefix_append_long: "length d \<le> length a \<Longrightarrow> prefix d (a @ r) = prefix d a"
  by (auto simp: prefix_append)

lemma cut_found: "d \<noteq> [] \<Longrightarrow> \<not> startsWithin d c \<Longrightarrow> cutAt d (c @ d @ r) = Some (c, r)"
proof (induction c)
  case Nil
  then obtain y ys where d: "d = y # ys" by (cases d) auto
  show ?case by (simp add: d)
next
  case (Cons x xs)
  from Cons.prems have np: "\<not> prefix d (x # xs @ d)" and ns: "\<not> startsWithin d xs" by simp_all
  have "prefix d ((x # xs @ d) @ r) = prefix d (x # xs @ d)"
    by (rule prefix_append_long) simp
  with np have "\<not> prefix d (x # xs @ d @ r)" by simp
  with Cons.IH [OF Cons.prems(1) ns] show ?case by simp
qed

lemma not_startsWithin: "d \<noteq> [] \<Longrightarrow> hd d \<notin> set c \<Longrightarrow> \<not> startsWithin d c"
proof (induction c)
  case Nil
  show ?case by simp
next
  case (Cons x xs)
  then obtain y ys where d: "d = y # ys" by (cases d) auto
  with Cons show ?case by auto
qed

lemma cut_crlf: "0x0D \<notin> set c \<Longrightarrow> cutAt crlf (c @ crlf @ r) = Some (c, r)"
  using cut_found [of crlf c r] not_startsWithin [of crlf c] by (simp add: crlf_def)

lemma stripPrefix_append: "stripPrefix p (p @ r) = Some r"
  by (simp add: stripPrefix_def)

lemma quoted_text: "list_all qdtext v \<Longrightarrow> quoted (v @ 0x22 # r) = Some (v, r)"
proof (induction v)
  case Nil
  show ?case by (cases r) simp_all
next
  case (Cons c v)
  then have c: "qdtext c" and IH: "quoted (v @ 0x22 # r) = Some (v, r)" by simp_all
  from c have n: "c \<noteq> 0x22" "c \<noteq> 0x5C" by (simp_all add: qdtext_def)
  obtain d cs where s: "v @ 0x22 # r = d # cs" by (cases v) simp_all
  from IH show ?case by (simp add: s n c)
qed

lemma class_bytes:
  "\<not> qdtext 0x0D" "\<not> tokenChar 0x0D" "\<not> tokenChar 0x20" "\<not> tokenChar 0x09"
  "\<not> tokenChar 0x2F" "\<not> tokenChar 0x3B" "\<not> tokenChar 0x3D" "\<not> tokenChar 0x22"
  "\<not> tokenChar 0x3A" "\<not> blank 0x0D" "\<not> blank 0x3B" "\<not> blank 0x22"
  by (simp_all add: qdtext_def quotable_def tokenChar_def blank_def)

lemma qdtext_not_cr: "list_all qdtext v \<Longrightarrow> 0x0D \<notin> set v"
  using class_bytes(1) by (auto simp: list_all_iff)

lemma tokenChar_not_blank: "tokenChar c \<Longrightarrow> \<not> blank c"
  using class_bytes(3,4) by (auto simp: blank_def)

lemma plainType_split:
  assumes "plainType t"
  obtains ty sub where "t = ty @ 0x2F # sub" "ty \<noteq> []" "sub \<noteq> []"
    "list_all tokenChar ty" "list_all tokenChar sub"
proof -
  define ty where "ty = takeWhile tokenChar t"
  from assms obtain sub where d: "dropWhile tokenChar t = 0x2F # sub" and s: "sub \<noteq> []"
    "list_all tokenChar sub"
    by (auto simp: plainType_def split: list.splits)
  have "t = ty @ 0x2F # sub" using takeWhile_dropWhile_id [of tokenChar t] d by (simp add: ty_def)
  moreover have "ty \<noteq> []" using assms by (simp add: plainType_def ty_def)
  moreover have "list_all tokenChar ty"
    by (auto simp: ty_def list_all_iff dest: set_takeWhileD)
  ultimately show ?thesis using s that by blast
qed

lemma takeWhile_tokens:
  "list_all tokenChar ty \<Longrightarrow> \<not> tokenChar c \<Longrightarrow> takeWhile tokenChar (ty @ c # r) = ty"
  by (induction ty) simp_all

lemma dropWhile_tokens:
  "list_all tokenChar ty \<Longrightarrow> \<not> tokenChar c \<Longrightarrow> dropWhile tokenChar (ty @ c # r) = c # r"
  by (induction ty) simp_all

lemma takeWhile_whole: "list_all P xs \<Longrightarrow> takeWhile P xs = xs"
  by (induction xs) simp_all

lemma dropWhile_whole: "list_all P xs \<Longrightarrow> dropWhile P xs = []"
  by (induction xs) simp_all

lemma slash_not_token: "\<not> tokenChar 0x2F"
  by (rule class_bytes)

lemma plainType_wellFormed: "plainType t \<Longrightarrow> wellFormedType t"
proof -
  assume "plainType t"
  then obtain ty sub where t: "t = ty @ 0x2F # sub" and ne: "ty \<noteq> []" "sub \<noteq> []"
    and tk: "list_all tokenChar ty" "list_all tokenChar sub"
    by (rule plainType_split)
  obtain n where n: "length t = Suc n" using t by (cases t) simp_all
  show ?thesis
    unfolding wellFormedType_def n
    by (simp add: t takeWhile_tokens [OF tk(1) slash_not_token]
        dropWhile_tokens [OF tk(1) slash_not_token] takeWhile_whole [OF tk(2)]
        dropWhile_whole [OF tk(2)] ne)
qed

lemma plainType_bytes:
  assumes "plainType t"
  shows "0x0D \<notin> set t" "t \<noteq> []" "\<not> blank (hd t)" "\<not> blank (last t)"
proof -
  from assms obtain ty sub where t: "t = ty @ 0x2F # sub" and ne: "ty \<noteq> []" "sub \<noteq> []"
    and tk: "list_all tokenChar ty" "list_all tokenChar sub"
    by (rule plainType_split)
  have "\<forall>c \<in> set t. tokenChar c \<or> c = 0x2F" using tk by (auto simp: t list_all_iff)
  then show "0x0D \<notin> set t" using class_bytes(2) by auto
  show "t \<noteq> []" by (simp add: t)
  from ne tk have "tokenChar (hd ty)" "tokenChar (last sub)"
    by (auto simp: list_all_iff)
  with ne show "\<not> blank (hd t)" "\<not> blank (last t)"
    by (auto simp: t dest: tokenChar_not_blank)
qed

lemma trimBlanks_id: "v \<noteq> [] \<Longrightarrow> \<not> blank (hd v) \<Longrightarrow> \<not> blank (last v) \<Longrightarrow> trimBlanks (0x20 # v) = v"
proof -
  assume v: "v \<noteq> []" and h: "\<not> blank (hd v)" and l: "\<not> blank (last v)"
  from v h have d: "dropWhile blank v = v" by (cases v) simp_all
  from v l have "dropWhile blank (rev v) = rev v" by (cases v rule: rev_cases) simp_all
  with d show ?thesis by (simp add: trimBlanks_def blank_def)
qed

lemma lower_slash: "lower 0x2F = 0x2F"
  by (simp add: lower_def)

lemma plainType_mediaType: "plainType t \<Longrightarrow> mediaType t = t"
proof -
  assume p: "plainType t"
  then obtain ty sub where t: "t = ty @ 0x2F # sub"
    and tk: "list_all tokenChar ty" "list_all tokenChar sub"
    by (rule plainType_split)
  from p have l: "map lower t = t" by (simp add: plainType_def)
  have "mediaType t = map lower ty @ [0x2F] @ map lower sub"
    using plainType_wellFormed [OF p]
    by (simp add: mediaType_def t takeWhile_tokens [OF tk(1) slash_not_token]
        dropWhile_tokens [OF tk(1) slash_not_token] takeWhile_whole [OF tk(2)])
  also have "\<dots> = map lower t" by (simp add: t lower_slash)
  finally show ?thesis using l by simp
qed

lemma plainName_terminal: "plainName f \<Longrightarrow> lastComponent f = f"
proof -
  assume p: "plainName f"
  then have "\<forall>c \<in> set (rev f). c \<noteq> 0x2F \<and> c \<noteq> 0x5C"
    by (auto simp: plainName_def list_all_iff qdtext_def)
  then have "takeWhile (\<lambda>c. c \<noteq> 0x2F \<and> c \<noteq> 0x5C) (rev f) = rev f"
    by (simp only: takeWhile_eq_all_conv)
  then have "lastComponent f = (if f = [0x2E] \<or> f = [0x2E, 0x2E] then [] else f)"
    by (simp only: lastComponent_def Let_def rev_rev_ident)
  with p show ?thesis by (simp add: plainName_def)
qed

lemma plainName_text: "plainName f \<Longrightarrow> list_all qdtext f"
  by (simp add: plainName_def)

lemma prefix_bytes:
  "0x0D \<notin> set dispositionPrefix" "0x0D \<notin> set filenamePrefix" "0x0D \<notin> set typePrefix"
  by (simp_all add: dispositionPrefix_def filenamePrefix_def typePrefix_def ascii_def)

lemma parseParams_filename:
  assumes "list_all qdtext f"
  shows "parseParams (Suc (Suc n)) (filenamePrefix @ f @ [0x22]) = Some [(ascii ''filename'', f)]"
proof -
  have q: "quoted (f @ [0x22]) = Some (f, [])" using assms by (rule quoted_text)
  show ?thesis
    by (simp add: filenamePrefix_def ascii_def blank_def tokenChar_def lower_def q)
qed

lemma parseParams_name:
  assumes "list_all qdtext name" and "parseParams n r = Some ps"
  shows "parseParams (Suc n) (ascii ''; name='' @ [0x22] @ name @ [0x22] @ r) =
         Some ((ascii ''name'', name) # ps)"
proof -
  have q: "quoted (name @ 0x22 # r) = Some (name, r)" using assms(1) by (rule quoted_text)
  show ?thesis
    by (simp add: ascii_def blank_def tokenChar_def lower_def q assms(2))
qed

lemma parseDisposition_wire:
  assumes "list_all qdtext name"
    and "case filename of None \<Rightarrow> True | Some f \<Rightarrow> list_all qdtext f"
  shows "parseDisposition (ascii ''form-data; name='' @ [0x22] @ name @ [0x22] @
           (case filename of None \<Rightarrow> [] | Some f \<Rightarrow> filenamePrefix @ f @ [0x22])) =
         Some (name, filename)"
proof -
  define r where "r = (case filename of None \<Rightarrow> [] | Some f \<Rightarrow> filenamePrefix @ f @ [0x22])"
  define v where "v = ascii ''form-data; name='' @ [0x22] @ name @ [0x22] @ r"
  obtain n where n: "length v = Suc (Suc (Suc n))" by (simp add: v_def ascii_def)
  have ps: "parseParams (Suc (Suc n)) r =
            Some (case filename of None \<Rightarrow> [] | Some f \<Rightarrow> [(ascii ''filename'', f)])"
  proof (cases filename)
    case None
    then show ?thesis by (simp add: r_def)
  next
    case (Some f)
    with assms(2) have "list_all qdtext f" by simp
    from parseParams_filename [OF this, of n] Some show ?thesis by (simp add: r_def)
  qed
  have t: "takeWhile tokenChar v = ascii ''form-data''"
    by (simp add: v_def ascii_def tokenChar_def)
  have d: "dropWhile tokenChar v = ascii ''; name='' @ [0x22] @ name @ [0x22] @ r"
    by (simp add: v_def ascii_def tokenChar_def)
  have l: "map lower (ascii ''form-data'') = ascii ''form-data''"
    by (simp add: ascii_def lower_def)
  have p: "parseParams (length v) (dropWhile tokenChar v) =
           Some ((ascii ''name'', name) #
                 (case filename of None \<Rightarrow> [] | Some f \<Rightarrow> [(ascii ''filename'', f)]))"
    unfolding n d using assms(1) ps by (rule parseParams_name)
  have "parseDisposition v = Some (name, filename)"
    unfolding parseDisposition_def t l p
    by (cases filename) (simp_all add: ascii_def)
  then show ?thesis by (simp only: v_def r_def)
qed

lemma headerField_disposition:
  assumes "v \<noteq> []" "\<not> blank (hd v)" "\<not> blank (last v)"
  shows "headerField (ascii ''Content-Disposition: '' @ v) =
         Some (ascii ''content-disposition'', v)"
proof -
  have "cutAt [0x3A] (ascii ''Content-Disposition: '' @ v) =
        Some (ascii ''Content-Disposition'', 0x20 # v)"
    by (simp add: ascii_def)
  moreover have "list_all tokenChar (ascii ''Content-Disposition'')"
    by (simp add: ascii_def tokenChar_def)
  moreover have "map lower (ascii ''Content-Disposition'') = ascii ''content-disposition''"
    by (simp add: ascii_def lower_def)
  moreover have "ascii ''Content-Disposition'' \<noteq> []" by (simp add: ascii_def)
  ultimately show ?thesis
    by (simp add: headerField_def trimBlanks_id [OF assms])
qed

lemma headerField_type:
  assumes "v \<noteq> []" "\<not> blank (hd v)" "\<not> blank (last v)"
  shows "headerField (typePrefix @ v) = Some (ascii ''content-type'', v)"
proof -
  have "cutAt [0x3A] (typePrefix @ v) = Some (ascii ''Content-Type'', 0x20 # v)"
    by (simp add: ascii_def typePrefix_def)
  moreover have "list_all tokenChar (ascii ''Content-Type'')"
    by (simp add: ascii_def tokenChar_def)
  moreover have "map lower (ascii ''Content-Type'') = ascii ''content-type''"
    by (simp add: ascii_def lower_def)
  moreover have "ascii ''Content-Type'' \<noteq> []" by (simp add: ascii_def)
  ultimately show ?thesis
    by (simp add: headerField_def trimBlanks_id [OF assms])
qed

lemma headerLines_wire:
  assumes "\<forall>l \<in> set ls. l \<noteq> [] \<and> 0x0D \<notin> set l" and "length ls < n"
  shows "headerLines n (concat (map (\<lambda>l. l @ crlf) ls) @ crlf @ rest) = Some (ls, rest)"
  using assms
proof (induction ls arbitrary: n)
  case Nil
  then obtain m where "n = Suc m" by (cases n) auto
  moreover have "cutAt crlf ([] @ crlf @ rest) = Some ([], rest)" by (rule cut_crlf) simp
  ultimately show ?case by simp
next
  case (Cons l ls)
  then obtain m where n: "n = Suc m" and m: "length ls < m" by (cases n) auto
  from Cons.prems have l: "l \<noteq> []" "0x0D \<notin> set l"
    and ls: "\<forall>l \<in> set ls. l \<noteq> [] \<and> 0x0D \<notin> set l" by simp_all
  have c: "cutAt crlf (l @ crlf @ concat (map (\<lambda>l. l @ crlf) ls) @ crlf @ rest) =
           Some (l, concat (map (\<lambda>l. l @ crlf) ls) @ crlf @ rest)"
    using l(2) by (rule cut_crlf)
  from Cons.IH [OF ls m] c l(1) show ?case by (simp add: n)
qed

lemma parseHeaders_wire:
  assumes "hygienic boundary p"
  shows "parseHeaders (wirePart p @ r) =
         Some (p_name p, p_filename p, p_contentType p, p_content p @ r)"
proof -
  define fpart where "fpart = (case p_filename p of None \<Rightarrow> [] | Some f \<Rightarrow> filenamePrefix @ f @ [0x22])"
  define v where "v = ascii ''form-data; name='' @ [0x22] @ p_name p @ [0x22] @ fpart"
  define line1 where "line1 = ascii ''Content-Disposition: '' @ v"
  define tlines where "tlines = (case p_contentType p of None \<Rightarrow> [] | Some t \<Rightarrow> [typePrefix @ t])"
  from assms have n: "list_all qdtext (p_name p)"
    and pf: "case p_filename p of None \<Rightarrow> True | Some f \<Rightarrow> plainName f"
    and t: "case p_contentType p of None \<Rightarrow> True | Some t \<Rightarrow> plainType t"
    by (simp_all add: hygienic_def)
  from pf have f: "case p_filename p of None \<Rightarrow> True | Some f \<Rightarrow> list_all qdtext f"
    and tf: "map_option lastComponent (p_filename p) = p_filename p"
    by (auto split: option.splits dest: plainName_text plainName_terminal)
  have w: "wirePart p @ r = concat (map (\<lambda>l. l @ crlf) (line1 # tlines)) @ crlf @ p_content p @ r"
    by (simp add: wirePart_def line1_def v_def fpart_def tlines_def dispositionPrefix_def ascii_def
        split: option.splits)
  have cr1: "0x0D \<notin> set line1"
    using n f prefix_bytes(2)
    by (auto simp: line1_def v_def fpart_def ascii_def dest: qdtext_not_cr split: option.splits)
  have crt: "\<forall>l \<in> set tlines. l \<noteq> [] \<and> 0x0D \<notin> set l"
    using t prefix_bytes(3)
    by (auto simp: tlines_def typePrefix_def ascii_def dest: plainType_bytes(1) split: option.splits)
  have ne1: "line1 \<noteq> []" by (simp add: line1_def ascii_def)
  have len: "length (line1 # tlines) < length (wirePart p @ r)"
    unfolding w by (simp add: line1_def ascii_def tlines_def crlf_def split: option.splits)
  have hl: "headerLines (length (wirePart p @ r)) (wirePart p @ r) =
            Some (line1 # tlines, p_content p @ r)"
    unfolding w [symmetric]
    using headerLines_wire [of "line1 # tlines" "length (wirePart p @ r)" "p_content p @ r"]
      cr1 crt ne1 len
    by (simp add: w)
  have vb: "v \<noteq> []" "\<not> blank (hd v)" "\<not> blank (last v)"
    by (simp_all add: v_def ascii_def blank_def fpart_def filenamePrefix_def split: option.splits)
  have h1: "headerField line1 = Some (ascii ''content-disposition'', v)"
    unfolding line1_def using vb by (rule headerField_disposition)
  have d: "parseDisposition v = Some (p_name p, p_filename p)"
    unfolding v_def fpart_def using n f by (rule parseDisposition_wire)
  have ne: "ascii ''content-type'' \<noteq> ascii ''content-disposition''"
    by (simp add: ascii_def)
  show ?thesis
  proof (cases "p_contentType p")
    case None
    then have "tlines = []" by (simp add: tlines_def)
    with hl h1 d None ne tf show ?thesis
      by (simp add: parseHeaders_def)
  next
    case (Some ty)
    with t have pt: "plainType ty" by simp
    from Some have tl: "tlines = [typePrefix @ ty]" by (simp add: tlines_def)
    have h2: "headerField (typePrefix @ ty) = Some (ascii ''content-type'', ty)"
      using plainType_bytes(2-4) [OF pt] by (rule headerField_type)
    have m: "mediaType ty = ty" using pt by (rule plainType_mediaType)
    from hl h1 h2 d Some ne tl m tf show ?thesis
      by (simp add: parseHeaders_def)
  qed
qed

lemma parseParts_wire:
  assumes "\<forall>p \<in> set ps. hygienic boundary p" and "length ps < rounds"
  shows "parseParts rounds (crlf @ dashes @ boundary)
           (concat (map (\<lambda>p. crlf @ wirePart p @ crlf @ dashes @ boundary) ps) @ dashes @ r) =
         Some ps"
  using assms
proof (induction ps arbitrary: rounds)
  case Nil
  then obtain n where "rounds = Suc n" by (cases rounds) auto
  then show ?case by (simp add: dashes_def)
next
  case (Cons p ps)
  then obtain n where rounds: "rounds = Suc n" and n: "length ps < n" by (cases rounds) auto
  from Cons.prems have h: "hygienic boundary p" and hs: "\<forall>p \<in> set ps. hygienic boundary p"
    by simp_all
  define rest where "rest = concat (map (\<lambda>p. crlf @ wirePart p @ crlf @ dashes @ boundary) ps) @ dashes @ r"
  have input: "concat (map (\<lambda>p. crlf @ wirePart p @ crlf @ dashes @ boundary) (p # ps)) @ dashes @ r =
               crlf @ wirePart p @ (crlf @ dashes @ boundary) @ rest"
    by (simp add: rest_def)
  have np: "\<not> prefix dashes (crlf @ wirePart p @ (crlf @ dashes @ boundary) @ rest)"
    by (simp add: dashes_def crlf_def)
  have pad: "dropWhile blank (crlf @ wirePart p @ (crlf @ dashes @ boundary) @ rest) =
             crlf @ wirePart p @ (crlf @ dashes @ boundary) @ rest"
    by (simp add: crlf_def class_bytes)
  have hd: "parseHeaders (wirePart p @ (crlf @ dashes @ boundary) @ rest) =
            Some (p_name p, p_filename p, p_contentType p,
                  p_content p @ (crlf @ dashes @ boundary) @ rest)"
    using h by (rule parseHeaders_wire)
  have ct: "cutAt (crlf @ dashes @ boundary) (p_content p @ (crlf @ dashes @ boundary) @ rest) =
            Some (p_content p, rest)"
    using h by (intro cut_found) (simp_all add: hygienic_def crlf_def)
  have IH: "parseParts n (crlf @ dashes @ boundary) rest = Some ps"
    unfolding rest_def using hs n by (rule Cons.IH)
  show ?case
    unfolding input rounds
    by (simp only: parseParts.simps np if_False pad stripPrefix_append option.case hd prod.case ct IH)
       simp
qed

lemma parseParts_reject:
  assumes "parseHeaders (wirePart p @ r) = None"
  shows "parseParts (Suc n) delimiter (crlf @ wirePart p @ r) = None"
proof -
  have np: "\<not> prefix dashes (crlf @ wirePart p @ r)"
    by (simp add: dashes_def crlf_def)
  have pad: "dropWhile blank (crlf @ wirePart p @ r) = crlf @ wirePart p @ r"
    by (simp add: crlf_def class_bytes)
  show ?thesis
    by (simp only: parseParts.simps np if_False pad stripPrefix_append option.case assms)
qed

lemma parts_length:
  "length ps \<le> length (concat (map (\<lambda>p. crlf @ wirePart p @ crlf @ dashes @ boundary) ps))"
  by (induction ps) (simp_all add: crlf_def)

lemma parseMultipart_parts:
  assumes "\<forall>p \<in> set ps. hygienic boundary p"
  shows "parseMultipart boundary
           (dashes @ boundary @
            concat (map (\<lambda>p. crlf @ wirePart p @ crlf @ dashes @ boundary) ps) @ dashes @ r) =
         Some ps"
proof -
  define input where "input = dashes @ boundary @
            concat (map (\<lambda>p. crlf @ wirePart p @ crlf @ dashes @ boundary) ps) @ dashes @ r"
  have "length ps < length input"
    using parts_length [of ps boundary] by (simp add: input_def dashes_def)
  from parseParts_wire [OF assms this, of r]
  have "parseParts (length input) (crlf @ dashes @ boundary)
          (concat (map (\<lambda>p. crlf @ wirePart p @ crlf @ dashes @ boundary) ps) @ dashes @ r) = Some ps" .
  moreover have "input = (dashes @ boundary) @
       (concat (map (\<lambda>p. crlf @ wirePart p @ crlf @ dashes @ boundary) ps) @ dashes @ r)"
    by (simp add: input_def)
  ultimately have "parseMultipart boundary input = Some ps"
    unfolding parseMultipart_def
    by (simp only: stripPrefix_append option.case)
  then show ?thesis by (simp only: input_def)
qed

lemma parseMultipart_wire:
  assumes "\<forall>p \<in> set ps. hygienic boundary p"
  shows "parseMultipart boundary (wireBody boundary ps) = Some ps"
  unfolding wireBody_def using assms by (rule parseMultipart_parts)

lemma parseMultipart_reject:
  assumes "hygienic boundary p" and "\<And>r. parseHeaders (wirePart q @ r) = None"
  shows "parseMultipart boundary (wireBody boundary [p, q]) = None"
proof -
  define D where "D = crlf @ dashes @ boundary"
  define tail where "tail = crlf @ wirePart q @ D @ dashes @ crlf"
  define input where "input = wireBody boundary [p, q]"
  have w: "input = (dashes @ boundary) @ crlf @ wirePart p @ D @ tail"
    by (simp add: input_def wireBody_def tail_def D_def)
  obtain n where n: "length input = Suc (Suc n)"
    by (simp add: w dashes_def crlf_def)
  have np: "\<not> prefix dashes (crlf @ wirePart p @ D @ tail)"
    by (simp add: dashes_def crlf_def)
  have pad: "dropWhile blank (crlf @ wirePart p @ D @ tail) = crlf @ wirePart p @ D @ tail"
    by (simp add: crlf_def class_bytes)
  have hd: "parseHeaders (wirePart p @ D @ tail) =
            Some (p_name p, p_filename p, p_contentType p, p_content p @ D @ tail)"
    using assms(1) by (rule parseHeaders_wire)
  have ct: "cutAt D (p_content p @ D @ tail) = Some (p_content p, tail)"
    using assms(1) by (intro cut_found) (simp_all add: hygienic_def crlf_def D_def)
  have rj: "parseParts (Suc n) D tail = None"
    unfolding tail_def using assms(2) by (rule parseParts_reject)
  have pp: "parseParts (Suc (Suc n)) D (crlf @ wirePart p @ D @ tail) = None"
    by (simp only: parseParts.simps(2) [of "Suc n"] np if_False pad stripPrefix_append option.case hd
        prod.case ct rj)
  have s: "stripPrefix (dashes @ boundary) input = Some (crlf @ wirePart p @ D @ tail)"
    by (simp only: w stripPrefix_append)
  have "parseMultipart boundary input =
        parseParts (length input) D (crlf @ wirePart p @ D @ tail)"
    by (simp only: parseMultipart_def s option.case D_def)
  also have "\<dots> = None" unfolding n by (rule pp)
  finally show ?thesis by (simp only: input_def)
qed

lemma parseHeaders_reject:
  assumes "p_filename p = None" and "p_contentType p = None" and "0x0D \<notin> set (p_name p)"
    and "parseDisposition (ascii ''form-data; name='' @ [0x22] @ p_name p @ [0x22]) = None"
  shows "parseHeaders (wirePart p @ r) = None"
proof -
  define v where "v = ascii ''form-data; name='' @ [0x22] @ p_name p @ [0x22]"
  define line1 where "line1 = ascii ''Content-Disposition: '' @ v"
  have w: "wirePart p @ r = concat (map (\<lambda>l. l @ crlf) [line1]) @ crlf @ p_content p @ r"
    by (simp add: wirePart_def line1_def v_def assms(1,2) dispositionPrefix_def ascii_def)
  have cr1: "0x0D \<notin> set line1"
    using assms(3) by (simp add: line1_def v_def ascii_def)
  have ne1: "line1 \<noteq> []" by (simp add: line1_def ascii_def)
  have len: "length [line1] < length (wirePart p @ r)"
    unfolding w by (simp add: line1_def ascii_def crlf_def)
  have hl: "headerLines (length (wirePart p @ r)) (wirePart p @ r) =
            Some ([line1], p_content p @ r)"
    using headerLines_wire [of "[line1]" "length (wirePart p @ r)" "p_content p @ r"]
      cr1 ne1 len
    by (simp add: w)
  have vb: "v \<noteq> []" "\<not> blank (hd v)" "\<not> blank (last v)"
    by (simp_all add: v_def ascii_def blank_def)
  have h1: "headerField line1 = Some (ascii ''content-disposition'', v)"
    unfolding line1_def using vb by (rule headerField_disposition)
  from assms(4) have d: "parseDisposition v = None" by (simp only: v_def)
  from hl h1 d show ?thesis by (simp add: parseHeaders_def)
qed

subsection \<open>The re-encoder writes canonical bodies\<close>

lemma utf8_ascii_cons: "c < 0x80 \<Longrightarrow> utf8 (c # cs) = ucast c # utf8 cs"
  by (cases cs) simp_all

lemma utf8_append_cons:
  "\<not> (0xDC00 \<le> d \<and> d < 0xE000) \<Longrightarrow> utf8 (a @ d # ds) = utf8 a @ utf8 (d # ds)"
proof (induction a rule: utf8.induct)
  case 1
  show ?case by simp
next
  case (2 c)
  then show ?case by auto
next
  case (3 c e cs)
  then show ?case by (auto simp: Let_def)
qed

lemma boundary_line:
  "utf8 (js ''--'' @ bnd @ CRLF) = dashes @ utf8 bnd @ crlf"
  by (simp add: js_def CRLF_def utf8_ascii_cons utf8_append_cons dashes_def crlf_def)

lemma closing_line:
  "utf8 (js ''--'' @ bnd @ js ''--'' @ CRLF) = dashes @ utf8 bnd @ dashes @ crlf"
  by (simp add: js_def CRLF_def utf8_ascii_cons utf8_append_cons dashes_def crlf_def)

lemma utf8_CRLF: "utf8 CRLF = crlf"
  by (simp add: CRLF_def crlf_def)

lemma field_header_line:
  "utf8 (js ''Content-Disposition: form-data; name='' @ DQ @ name @ DQ @ CRLF) =
   dispositionPrefix @ utf8 name @ [0x22] @ crlf"
  by (simp add: js_def CRLF_def DQ_def utf8_ascii_cons utf8_append_cons dispositionPrefix_def
      ascii_def crlf_def)

lemma file_header_line:
  "utf8 (js ''Content-Disposition: form-data; name='' @ DQ @ name @ DQ @
         js ''; filename='' @ DQ @ filename @ DQ @ CRLF) =
   dispositionPrefix @ utf8 name @ [0x22] @ filenamePrefix @ utf8 filename @ [0x22] @ crlf"
  by (simp add: js_def CRLF_def DQ_def utf8_ascii_cons utf8_append_cons dispositionPrefix_def
      filenamePrefix_def ascii_def crlf_def)

lemma type_header_line:
  "utf8 (js ''Content-Type: '' @ t @ CRLF) = typePrefix @ utf8 t @ crlf"
  by (simp add: js_def CRLF_def utf8_ascii_cons utf8_append_cons typePrefix_def ascii_def
      crlf_def)

lemma field_bytes:
  "concat (map toBuffer (fieldSegments bnd kv)) =
   (dashes @ utf8 bnd @ crlf) @ wirePart (fieldPart kv) @ crlf"
  by (simp add: fieldSegments_def boundary_line field_header_line utf8_CRLF wirePart_def
      fieldPart_def)

lemma formId_bytes:
  "concat (map toBuffer (formIdSegments bnd fid)) =
   (dashes @ utf8 bnd @ crlf) @ wirePart (fieldPart (js ''formId'', fid)) @ crlf"
  using field_header_line [of "js ''formId''"]
  by (simp add: formIdSegments_def boundary_line utf8_CRLF wirePart_def fieldPart_def)

lemma file_bytes:
  "concat (map toBuffer (fileSegments bnd file)) =
   (dashes @ utf8 bnd @ crlf) @ wirePart (filePart file) @ crlf"
  by (simp add: fileSegments_def boundary_line file_header_line type_header_line utf8_CRLF
      wirePart_def filePart_def)

lemma shift_delimiter:
  "concat (map (\<lambda>p. D1 @ D2 @ crlf @ wirePart p @ crlf) ps) @ D1 @ D2 @ T =
   D1 @ D2 @ concat (map (\<lambda>p. crlf @ wirePart p @ crlf @ D1 @ D2) ps) @ T"
  by (induction ps) simp_all

lemma orderedBody_wire:
  "orderedBody bnd fid fieldList fileList =
   wireBody (utf8 bnd) (fieldPart (js ''formId'', fid) # map fieldPart fieldList @
                        map filePart fileList)"
proof -
  have "orderedBody bnd fid fieldList fileList =
        concat (map (\<lambda>p. dashes @ utf8 bnd @ crlf @ wirePart p @ crlf)
                  (fieldPart (js ''formId'', fid) # map fieldPart fieldList @
                   map filePart fileList)) @ dashes @ utf8 bnd @ dashes @ crlf"
    by (simp add: orderedBody_def formId_bytes field_bytes file_bytes closing_line
        map_concat comp_def)
  also have "\<dots> = wireBody (utf8 bnd) (fieldPart (js ''formId'', fid) # map fieldPart fieldList @
                        map filePart fileList)"
    unfolding wireBody_def by (rule shift_delimiter)
  finally show ?thesis .
qed

subsection \<open>Reading the request body back\<close>

lemma hygienic_plain:
  assumes "list_all qdtext (p_name p)"
    and "case p_filename p of None \<Rightarrow> True | Some f \<Rightarrow> plainName f"
    and "case p_contentType p of None \<Rightarrow> True | Some t \<Rightarrow> plainType t"
    and "0x0D \<notin> set (p_content p)"
  shows "hygienic boundary p"
proof -
  have "\<not> startsWithin (crlf @ dashes @ boundary) (p_content p)"
    using assms(4) by (intro not_startsWithin) (simp_all add: crlf_def)
  with assms show ?thesis by (simp add: hygienic_def)
qed

lemma mset_Object_entries: "mset (Object_entries obj) = mset obj"
proof -
  have "mset (Object_entries obj) =
        filter_mset (\<lambda>kv. arrayIndex (fst kv) \<noteq> None) (mset obj) +
        filter_mset (\<lambda>kv. \<not> arrayIndex (fst kv) \<noteq> None) (mset obj)"
    by (simp add: Object_entries_def)
  then show ?thesis by (simp only: multiset_partition [symmetric])
qed

lemma request_reads_as_forwardedParts:
  assumes "wellFormed es" and "ready es" and "trim (MAILER_FORM_ID config) \<noteq> []"
  shows "map reqBody (requests (run config rt es)) =
           [RawBuffer (wireBody (utf8 (makeBoundary rt 0)) (forwardedParts config es))]"
  using request_body_ordered [OF assms, of rt]
  by (simp add: orderedBody_wire forwardedParts_def)

lemma readBack_request:
  assumes "wellFormed es" and "ready es" and "trim (MAILER_FORM_ID config) \<noteq> []"
  shows "map (readBack boundary) (requests (run config rt es)) =
           [parseMultipart boundary
              (wireBody (utf8 (makeBoundary rt 0)) (forwardedParts config es))]"
proof -
  from request_reads_as_forwardedParts [OF assms, of rt]
  obtain req where rs: "requests (run config rt es) = [req]"
    and b: "reqBody req = RawBuffer (wireBody (utf8 (makeBoundary rt 0)) (forwardedParts config es))"
    by auto
  show ?thesis by (simp add: rs readBack_def b)
qed

lemma forwarded_as_submitted:
  assumes "\<forall>kv \<in> set (acceptedFields es). fst kv \<noteq> js ''__proto__'' \<and> fst kv \<noteq> js ''formId''"
  shows "forwardedParts config es =
           fieldPart (js ''formId'', trim (MAILER_FORM_ID config)) #
           map fieldPart (Object_entries (firstSeen (acceptedFields es))) @
           map filePart (completedEntries es)"
proof -
  from assms have "filter (\<lambda>kv. fst kv \<noteq> js ''__proto__'') (acceptedFields es) = acceptedFields es"
    by (simp add: filter_id_conv)
  then have s: "storedFields es = firstSeen (acceptedFields es)"
    by (simp add: storedFields_def)
  have "\<forall>kv \<in> set (Object_entries (firstSeen (acceptedFields es))). fst kv \<noteq> js ''formId''"
  proof
    fix kv
    assume "kv \<in> set (Object_entries (firstSeen (acceptedFields es)))"
    then have "kv \<in> set (firstSeen (acceptedFields es))" by (simp only: set_Object_entries)
    then have "fst kv \<in> fst ` set (firstSeen (acceptedFields es))" by (rule imageI)
    then have "fst kv \<in> fst ` set (acceptedFields es)" by (simp only: firstSeen_keys)
    with assms show "fst kv \<noteq> js ''formId''" by auto
  qed
  then have "filter (\<lambda>kv. fst kv \<noteq> js ''formId'') (Object_entries (firstSeen (acceptedFields es))) =
             Object_entries (firstSeen (acceptedFields es))"
    by (simp add: filter_id_conv)
  with s show ?thesis by (simp add: forwardedParts_def)
qed

text \<open>
  C2, as the code has it. Take a completed Submission whose forwarded parts are plain: no
  name or filename contains a double quote, a backslash or a control character other than
  tab, no filename contains a slash or is \<^verbatim>\<open>.\<close> or \<^verbatim>\<open>..\<close>, every MIME type has the form
  \<^verbatim>\<open>type/subtype\<close> in lower case, and the delimiter (CRLF, two dashes, the boundary)
  starts within no value, payload or form identifier. Then a
  standards-compliant reader finds in the request body the form-identifier part followed
  by exactly the stored fields not named \<open>formId\<close> and the completed files, text in UTF-8
  and payloads byte for byte. If no field is named \<open>__proto__\<close> or \<open>formId\<close>, these are the
  form-identifier part and exactly the Fields and FileParts of the Submission; if moreover
  no field is named like an array index, they come in the Submission's order.
\<close>

theorem reencoded_body_reads_back:
  assumes "wellFormed es" and "ready es" and "trim (MAILER_FORM_ID config) \<noteq> []"
    and "\<forall>p \<in> set (forwardedParts config es). hygienic (utf8 (makeBoundary rt 0)) p"
  shows "map (readBack (utf8 (makeBoundary rt 0))) (requests (run config rt es)) =
           [Some (forwardedParts config es)] \<and>
         ((\<forall>kv \<in> set (acceptedFields es). fst kv \<noteq> js ''__proto__'' \<and> fst kv \<noteq> js ''formId'') \<longrightarrow>
          mset (forwardedParts config es) = mset (submittedParts config es)) \<and>
         ((\<forall>kv \<in> set (acceptedFields es).
             arrayIndex (fst kv) = None \<and> fst kv \<noteq> js ''__proto__'' \<and> fst kv \<noteq> js ''formId'') \<longrightarrow>
          forwardedParts config es = submittedParts config es)"
proof -
  have a: "map (readBack (utf8 (makeBoundary rt 0))) (requests (run config rt es)) =
           [Some (forwardedParts config es)]"
    by (simp only: readBack_request [OF assms(1-3)] parseMultipart_wire [OF assms(4)])
  have b: "mset (forwardedParts config es) = mset (submittedParts config es)"
    if h: "\<forall>kv \<in> set (acceptedFields es). fst kv \<noteq> js ''__proto__'' \<and> fst kv \<noteq> js ''formId''"
    by (simp add: forwarded_as_submitted [OF h] submittedParts_def mset_Object_entries)
  have c: "forwardedParts config es = submittedParts config es"
    if h: "\<forall>kv \<in> set (acceptedFields es).
             arrayIndex (fst kv) = None \<and> fst kv \<noteq> js ''__proto__'' \<and> fst kv \<noteq> js ''formId''"
  proof -
    from h have p: "\<forall>kv \<in> set (acceptedFields es). fst kv \<noteq> js ''__proto__'' \<and> fst kv \<noteq> js ''formId''"
      by blast
    have "\<forall>kv \<in> set (firstSeen (acceptedFields es)). arrayIndex (fst kv) = None"
    proof
      fix kv
      assume "kv \<in> set (firstSeen (acceptedFields es))"
      then have "fst kv \<in> fst ` set (firstSeen (acceptedFields es))" by (rule imageI)
      then have "fst kv \<in> fst ` set (acceptedFields es)" by (simp only: firstSeen_keys)
      with h show "arrayIndex (fst kv) = None" by auto
    qed
    then have "Object_entries (firstSeen (acceptedFields es)) = firstSeen (acceptedFields es)"
      by (rule Object_entries_plain)
    then show ?thesis by (simp add: forwarded_as_submitted [OF p] submittedParts_def)
  qed
  from a b c show ?thesis by blast
qed

lemma exampleUpload_parts:
  "forwardedParts exampleConfig exampleUpload =
     [\<lparr>p_name = ascii ''formId'', p_filename = None, p_contentType = None,
       p_content = ascii ''contact''\<rparr>,
      \<lparr>p_name = ascii ''email'', p_filename = None, p_contentType = None,
       p_content = ascii ''a@b.com''\<rparr>,
      \<lparr>p_name = ascii ''cv'', p_filename = Some (ascii ''resume.pdf''),
       p_contentType = Some (ascii ''application/pdf''),
       p_content = [0x25, 0x50, 0x44, 0x46, 0x2D, 0x31]\<rparr>]"
proof -
  have t: "trim (MAILER_FORM_ID exampleConfig) = js ''contact''"
    by (simp add: exampleConfig_def trim_def isWhiteSpace_def js_def)
  have e: "Object_entries [(js ''email'', js ''a@b.com'')] = [(js ''email'', js ''a@b.com'')]"
    by (rule Object_entries_plain) (simp add: email_not_index)
  have n: "js ''email'' \<noteq> js ''formId''" by (simp add: js_def)
  show ?thesis
    unfolding forwardedParts_def t exampleUpload_stored exampleUpload_completed e
    by (simp add: n fieldPart_def filePart_def)
       (simp add: js_def ascii_def)
qed

lemma plain_samples:
  "list_all qdtext (ascii ''formId'')" "list_all qdtext (ascii ''email'')"
  "list_all qdtext (ascii ''cv'')" "plainName (ascii ''resume.pdf'')"
  "list_all qdtext (ascii ''m'')"
  "plainType (ascii ''application/pdf'')"
  by (simp_all add: ascii_def qdtext_def quotable_def plainName_def plainType_def tokenChar_def
      lower_def)

theorem reencoded_body_reads_back_witness:
  "wellFormed exampleUpload \<and> ready exampleUpload \<and>
   map (readBack (utf8 (makeBoundary exampleRuntime 0)))
     (requests (run exampleConfig exampleRuntime exampleUpload)) =
     [Some [\<lparr>p_name = ascii ''formId'', p_filename = None, p_contentType = None,
             p_content = ascii ''contact''\<rparr>,
            \<lparr>p_name = ascii ''email'', p_filename = None, p_contentType = None,
             p_content = ascii ''a@b.com''\<rparr>,
            \<lparr>p_name = ascii ''cv'', p_filename = Some (ascii ''resume.pdf''),
             p_contentType = Some (ascii ''application/pdf''),
             p_content = [0x25, 0x50, 0x44, 0x46, 0x2D, 0x31]\<rparr>]] \<and>
   forwardedParts exampleConfig exampleUpload = submittedParts exampleConfig exampleUpload"
proof -
  have h: "\<forall>p \<in> set (forwardedParts exampleConfig exampleUpload).
             hygienic (utf8 (makeBoundary exampleRuntime 0)) p"
    unfolding exampleUpload_parts
    by (auto intro!: hygienic_plain simp: plain_samples) (simp_all add: ascii_def)
  have k: "\<forall>kv \<in> set (acceptedFields exampleUpload).
             arrayIndex (fst kv) = None \<and> fst kv \<noteq> js ''__proto__'' \<and> fst kv \<noteq> js ''formId''"
    by (simp add: acceptedFields_def exampleUpload_def email_not_index) (simp add: js_def)
  from reencoded_body_reads_back
         [OF exampleUpload_wellFormed exampleUpload_ready exampleConfig_valid h] k
  have "map (readBack (utf8 (makeBoundary exampleRuntime 0)))
          (requests (run exampleConfig exampleRuntime exampleUpload)) =
        [Some (forwardedParts exampleConfig exampleUpload)]"
    and "forwardedParts exampleConfig exampleUpload = submittedParts exampleConfig exampleUpload"
    by blast+
  with exampleUpload_wellFormed exampleUpload_ready show ?thesis
    by (simp only: exampleUpload_parts simp_thms)
qed

subsection \<open>Submissions that do not read back\<close>

lemma oneField:
  assumes "name \<noteq> js ''form-name''" and "name \<noteq> js ''bot-field''"
  shows "wellFormed [Field name v, Finish]" and "ready [Field name v, Finish]"
    and "acceptedFields [Field name v, Finish] = [(name, v)]"
    and "completedEntries [Field name v, Finish] = []"
  using assms
  by (simp_all add: wellFormed_def parserOpen_def ready_def drained_def opened_def
      drainedIds_def endedIds_def listenedIds_def acceptedFields_def completedEntries_def)

lemma oneField_parts:
  assumes "name \<noteq> js ''form-name''" and "name \<noteq> js ''bot-field''"
    and "name \<noteq> js ''__proto__''" and "name \<noteq> js ''formId''" and "arrayIndex name = None"
  shows "forwardedParts config [Field name v, Finish] =
           [fieldPart (js ''formId'', trim (MAILER_FORM_ID config)), fieldPart (name, v)]"
    and "submittedParts config [Field name v, Finish] =
           [fieldPart (js ''formId'', trim (MAILER_FORM_ID config)), fieldPart (name, v)]"
proof -
  have e: "Object_entries [(name, v)] = [(name, v)]"
    by (rule Object_entries_plain) (simp add: assms(5))
  have f: "firstSeen [(name, v)] = [(name, v)]"
    by (simp add: firstSeen_def lastValue_def)
  have h: "\<forall>kv \<in> set (acceptedFields [Field name v, Finish]).
             fst kv \<noteq> js ''__proto__'' \<and> fst kv \<noteq> js ''formId''"
    by (simp add: oneField(3) [OF assms(1,2)] assms(3,4))
  show "forwardedParts config [Field name v, Finish] =
           [fieldPart (js ''formId'', trim (MAILER_FORM_ID config)), fieldPart (name, v)]"
    by (simp add: forwarded_as_submitted [OF h] oneField(3,4) [OF assms(1,2)] f e)
  show "submittedParts config [Field name v, Finish] =
           [fieldPart (js ''formId'', trim (MAILER_FORM_ID config)), fieldPart (name, v)]"
    by (simp add: submittedParts_def oneField(3,4) [OF assms(1,2)] f)
qed

lemma formIdPart_hygienic:
  "hygienic boundary (fieldPart (js ''formId'', trim (MAILER_FORM_ID exampleConfig)))"
proof -
  have t: "trim (MAILER_FORM_ID exampleConfig) = js ''contact''"
    by (simp add: exampleConfig_def trim_def isWhiteSpace_def js_def)
  have n: "utf8 (js ''formId'') = ascii ''formId''" by (simp add: js_def ascii_def)
  have c: "0x0D \<notin> set (utf8 (js ''contact''))" by (simp add: js_def)
  show ?thesis
    by (rule hygienic_plain) (simp_all add: fieldPart_def t n c plain_samples)
qed

lemma unreadable_field:
  assumes "name \<noteq> js ''form-name''" and "name \<noteq> js ''bot-field''"
    and "name \<noteq> js ''__proto__''" and "name \<noteq> js ''formId''" and "arrayIndex name = None"
    and "0x0D \<notin> set (utf8 name)"
    and "parseDisposition (ascii ''form-data; name='' @ [0x22] @ utf8 name @ [0x22]) = None"
  shows "map (readBack (utf8 (makeBoundary exampleRuntime 0)))
           (requests (run exampleConfig exampleRuntime [Field name v, Finish])) = [None]"
proof -
  have "parseHeaders (wirePart (fieldPart (name, v)) @ r) = None" for r
  proof (rule parseHeaders_reject)
    show "parseDisposition (ascii ''form-data; name='' @ [0x22] @
            p_name (fieldPart (name, v)) @ [0x22]) = None"
      using assms(7) by (simp add: fieldPart_def)
  qed (simp_all add: fieldPart_def assms(6))
  with formIdPart_hygienic
  have "parseMultipart (utf8 (makeBoundary exampleRuntime 0))
          (wireBody (utf8 (makeBoundary exampleRuntime 0))
             [fieldPart (js ''formId'', trim (MAILER_FORM_ID exampleConfig)),
              fieldPart (name, v)]) = None"
    by (rule parseMultipart_reject)
  then show ?thesis
    by (simp only: readBack_request [OF oneField(1,2) [OF assms(1,2)] exampleConfig_valid]
        oneField_parts(1) [OF assms(1-5)])
qed

lemma quotedUpload_unreadable:
  "map (readBack (utf8 (makeBoundary exampleRuntime 0)))
     (requests (run exampleConfig exampleRuntime quotedUpload)) = [None]"
  unfolding quotedUpload_def
proof (rule unreadable_field)
  show "parseDisposition (ascii ''form-data; name='' @ [0x22] @ utf8 (js ''a'' @ DQ @ js ''b'') @ [0x22]) = None"
    by (simp add: parseDisposition_def js_def DQ_def ascii_def tokenChar_def blank_def lower_def
        qdtext_def quotable_def)
qed (simp_all add: js_def DQ_def arrayIndex_def isDigit_def)

lemma escapedUpload_unreadable:
  "map (readBack (utf8 (makeBoundary exampleRuntime 0)))
     (requests (run exampleConfig exampleRuntime escapedUpload)) = [None]"
  unfolding escapedUpload_def
proof (rule unreadable_field)
  show "parseDisposition (ascii ''form-data; name='' @ [0x22] @ utf8 (js ''a'' @ [0x5C]) @ [0x22]) = None"
    by (simp add: parseDisposition_def js_def ascii_def tokenChar_def blank_def lower_def
        qdtext_def quotable_def)
qed (simp_all add: js_def arrayIndex_def isDigit_def)

lemma colliding_value:
  "utf8 (js ''x'' @ CRLF @ js ''--'' @ bnd @ js ''--'' @ CRLF) =
   [0x78] @ (crlf @ dashes @ utf8 bnd) @ dashes @ crlf"
proof -
  have "utf8 (js ''x'' @ CRLF @ js ''--'' @ bnd @ js ''--'' @ CRLF) =
        [0x78, 0x0D, 0x0A] @ utf8 (js ''--'' @ bnd @ js ''--'' @ CRLF)"
    by (simp add: js_def CRLF_def utf8_ascii_cons)
  then show ?thesis by (simp add: closing_line crlf_def)
qed

lemma collidingUpload_truncated:
  "map (readBack (utf8 (makeBoundary exampleRuntime 0)))
     (requests (run exampleConfig exampleRuntime collidingUpload)) =
   [Some [fieldPart (js ''formId'', trim (MAILER_FORM_ID exampleConfig)),
          fieldPart (js ''m'', js ''x'')]]"
proof -
  define B where "B = utf8 (makeBoundary exampleRuntime 0)"
  define p0 where "p0 = fieldPart (js ''formId'', trim (MAILER_FORM_ID exampleConfig))"
  define v where "v = js ''x'' @ CRLF @ js ''--'' @ makeBoundary exampleRuntime 0 @ js ''--'' @ CRLF"
  have names: "js ''m'' \<noteq> js ''form-name''" "js ''m'' \<noteq> js ''bot-field''"
    "js ''m'' \<noteq> js ''__proto__''" "js ''m'' \<noteq> js ''formId''" "arrayIndex (js ''m'') = None"
    by (simp_all add: js_def arrayIndex_def isDigit_def)
  have w: "wirePart (fieldPart (js ''m'', v)) =
           wirePart (fieldPart (js ''m'', js ''x'')) @ (crlf @ dashes @ B) @ dashes @ crlf"
    by (simp add: wirePart_def fieldPart_def v_def colliding_value B_def) (simp add: js_def)
  have body: "wireBody B [p0, fieldPart (js ''m'', v)] =
              dashes @ B @
              concat (map (\<lambda>p. crlf @ wirePart p @ crlf @ dashes @ B)
                        [p0, fieldPart (js ''m'', js ''x'')]) @
              dashes @ (crlf @ crlf @ dashes @ B @ dashes @ crlf)"
    by (simp add: wireBody_def w)
  have h1: "hygienic B (fieldPart (js ''m'', js ''x''))"
  proof (rule hygienic_plain)
    show "list_all qdtext (p_name (fieldPart (js ''m'', js ''x'')))"
      using plain_samples(5) by (simp add: fieldPart_def js_def ascii_def)
  qed (simp_all add: fieldPart_def js_def)
  have "\<forall>p \<in> set [p0, fieldPart (js ''m'', js ''x'')]. hygienic B p"
    using h1 formIdPart_hygienic [of B] by (simp add: p0_def)
  then have "parseMultipart B (wireBody B [p0, fieldPart (js ''m'', v)]) =
             Some [p0, fieldPart (js ''m'', js ''x'')]"
    unfolding body by (rule parseMultipart_parts)
  then show ?thesis
    unfolding collidingUpload_def v_def [symmetric]
    by (simp only: readBack_request [OF oneField(1,2) [OF names(1,2)] exampleConfig_valid]
        oneField_parts(1) [OF names] B_def p0_def)
qed

lemma collidingUpload_submitted:
  "submittedParts exampleConfig collidingUpload \<noteq>
   [fieldPart (js ''formId'', trim (MAILER_FORM_ID exampleConfig)), fieldPart (js ''m'', js ''x'')]"
proof -
  have names: "js ''m'' \<noteq> js ''form-name''" "js ''m'' \<noteq> js ''bot-field''"
    "js ''m'' \<noteq> js ''__proto__''" "js ''m'' \<noteq> js ''formId''" "arrayIndex (js ''m'') = None"
    by (simp_all add: js_def arrayIndex_def isDigit_def)
  have "utf8 (js ''x'') = [0x78]" by (simp add: js_def)
  then show ?thesis
    unfolding collidingUpload_def
    by (simp add: oneField_parts(2) [OF names] fieldPart_def colliding_value crlf_def)
qed

lemma renamedUpload_parts:
  "forwardedParts exampleConfig renamedUpload =
     [fieldPart (js ''formId'', trim (MAILER_FORM_ID exampleConfig))]"
  "submittedParts exampleConfig renamedUpload =
     [fieldPart (js ''formId'', trim (MAILER_FORM_ID exampleConfig)),
      fieldPart (js ''formId'', js ''other'')]"
proof -
  have names: "js ''formId'' \<noteq> js ''form-name''" "js ''formId'' \<noteq> js ''bot-field''"
    "js ''formId'' \<noteq> js ''__proto__''" "arrayIndex (js ''formId'') = None"
    by (simp_all add: js_def arrayIndex_def isDigit_def)
  have f: "firstSeen [(js ''formId'', js ''other'')] = [(js ''formId'', js ''other'')]"
    by (simp add: firstSeen_def lastValue_def)
  have e: "Object_entries [(js ''formId'', js ''other'')] = [(js ''formId'', js ''other'')]"
    by (rule Object_entries_plain) (simp add: names(4))
  show "forwardedParts exampleConfig renamedUpload =
     [fieldPart (js ''formId'', trim (MAILER_FORM_ID exampleConfig))]"
    unfolding renamedUpload_def
    by (simp add: forwardedParts_def storedFields_def oneField(3,4) [OF names(1,2)] names(3) f e)
  show "submittedParts exampleConfig renamedUpload =
     [fieldPart (js ''formId'', trim (MAILER_FORM_ID exampleConfig)),
      fieldPart (js ''formId'', js ''other'')]"
    unfolding renamedUpload_def
    by (simp add: submittedParts_def oneField(3,4) [OF names(1,2)] f)
qed

lemma renamedUpload_dropped:
  "map (readBack (utf8 (makeBoundary exampleRuntime 0)))
     (requests (run exampleConfig exampleRuntime renamedUpload)) =
   [Some [fieldPart (js ''formId'', trim (MAILER_FORM_ID exampleConfig))]]"
proof -
  have names: "js ''formId'' \<noteq> js ''form-name''" "js ''formId'' \<noteq> js ''bot-field''"
    by (simp_all add: js_def)
  have wf: "wellFormed renamedUpload" "ready renamedUpload"
    unfolding renamedUpload_def by (rule oneField [OF names])+
  have "\<forall>p \<in> set [fieldPart (js ''formId'', trim (MAILER_FORM_ID exampleConfig))].
          hygienic (utf8 (makeBoundary exampleRuntime 0)) p"
    using formIdPart_hygienic by simp
  then have "parseMultipart (utf8 (makeBoundary exampleRuntime 0))
          (wireBody (utf8 (makeBoundary exampleRuntime 0))
             [fieldPart (js ''formId'', trim (MAILER_FORM_ID exampleConfig))]) =
        Some [fieldPart (js ''formId'', trim (MAILER_FORM_ID exampleConfig))]"
    by (rule parseMultipart_wire)
  then show ?thesis
    by (simp only: readBack_request [OF wf exampleConfig_valid] renamedUpload_parts(1))
qed

lemma inheritedUpload_parts:
  "forwardedParts exampleConfig inheritedUpload =
     [fieldPart (js ''formId'', trim (MAILER_FORM_ID exampleConfig))]"
  "submittedParts exampleConfig inheritedUpload =
     [fieldPart (js ''formId'', trim (MAILER_FORM_ID exampleConfig)),
      fieldPart (js ''__proto__'', js ''v'')]"
proof -
  have names: "js ''__proto__'' \<noteq> js ''form-name''" "js ''__proto__'' \<noteq> js ''bot-field''"
    by (simp_all add: js_def)
  have f: "firstSeen [(js ''__proto__'', js ''v'')] = [(js ''__proto__'', js ''v'')]"
    by (simp add: firstSeen_def lastValue_def)
  have e: "firstSeen [] = ([] :: (jstring \<times> jstring) list)" "Object_entries [] = ([] :: (jstring \<times> jstring) list)"
    by (simp_all add: firstSeen_def Object_entries_def)
  show "forwardedParts exampleConfig inheritedUpload =
     [fieldPart (js ''formId'', trim (MAILER_FORM_ID exampleConfig))]"
    unfolding inheritedUpload_def
    by (simp add: forwardedParts_def storedFields_def oneField(3,4) [OF names] e)
  show "submittedParts exampleConfig inheritedUpload =
     [fieldPart (js ''formId'', trim (MAILER_FORM_ID exampleConfig)),
      fieldPart (js ''__proto__'', js ''v'')]"
    unfolding inheritedUpload_def
    by (simp add: submittedParts_def oneField(3,4) [OF names] f)
qed

lemma inheritedUpload_dropped:
  "map (readBack (utf8 (makeBoundary exampleRuntime 0)))
     (requests (run exampleConfig exampleRuntime inheritedUpload)) =
   [Some [fieldPart (js ''formId'', trim (MAILER_FORM_ID exampleConfig))]]"
proof -
  have names: "js ''__proto__'' \<noteq> js ''form-name''" "js ''__proto__'' \<noteq> js ''bot-field''"
    by (simp_all add: js_def)
  have wf: "wellFormed inheritedUpload" "ready inheritedUpload"
    unfolding inheritedUpload_def by (rule oneField [OF names])+
  have "\<forall>p \<in> set [fieldPart (js ''formId'', trim (MAILER_FORM_ID exampleConfig))].
          hygienic (utf8 (makeBoundary exampleRuntime 0)) p"
    using formIdPart_hygienic by simp
  then have "parseMultipart (utf8 (makeBoundary exampleRuntime 0))
          (wireBody (utf8 (makeBoundary exampleRuntime 0))
             [fieldPart (js ''formId'', trim (MAILER_FORM_ID exampleConfig))]) =
        Some [fieldPart (js ''formId'', trim (MAILER_FORM_ID exampleConfig))]"
    by (rule parseMultipart_wire)
  then show ?thesis
    by (simp only: readBack_request [OF wf exampleConfig_valid] inheritedUpload_parts(1))
qed

lemma one_field_uploads:
  "wellFormed quotedUpload" "ready quotedUpload" "wellFormed escapedUpload" "ready escapedUpload"
  "wellFormed collidingUpload" "ready collidingUpload" "wellFormed renamedUpload"
  "ready renamedUpload" "wellFormed inheritedUpload" "ready inheritedUpload"
  by (simp_all add: quotedUpload_def escapedUpload_def collidingUpload_def renamedUpload_def
      inheritedUpload_def wellFormed_def parserOpen_def ready_def drained_def opened_def
      drainedIds_def endedIds_def listenedIds_def)

text \<open>
  C2 as stated fails, in five ways. A field named \<open>a"b\<close> is written between double quotes
  unescaped, and one whose name is \<open>a\<close> and a backslash puts that backslash before the
  closing quote: neither Content-Disposition line is well formed, and the body yields no
  parts. A field value that contains CRLF, two dashes and the boundary ends its part
  early: the value is read back as \<open>x\<close> only. A field named \<open>formId\<close> is left out of the
  body, and so is one named \<open>__proto__\<close>, which the field store never holds.
\<close>

theorem round_trip_counterexample:
  "wellFormed quotedUpload \<and> ready quotedUpload \<and>
   map (readBack (utf8 (makeBoundary exampleRuntime 0)))
     (requests (run exampleConfig exampleRuntime quotedUpload)) = [None] \<and>
   map (readBack (utf8 (makeBoundary exampleRuntime 0)))
     (requests (run exampleConfig exampleRuntime quotedUpload)) \<noteq>
     [Some (submittedParts exampleConfig quotedUpload)] \<and>
   wellFormed escapedUpload \<and> ready escapedUpload \<and>
   map (readBack (utf8 (makeBoundary exampleRuntime 0)))
     (requests (run exampleConfig exampleRuntime escapedUpload)) = [None] \<and>
   map (readBack (utf8 (makeBoundary exampleRuntime 0)))
     (requests (run exampleConfig exampleRuntime escapedUpload)) \<noteq>
     [Some (submittedParts exampleConfig escapedUpload)] \<and>
   wellFormed collidingUpload \<and> ready collidingUpload \<and>
   map (readBack (utf8 (makeBoundary exampleRuntime 0)))
     (requests (run exampleConfig exampleRuntime collidingUpload)) =
     [Some [fieldPart (js ''formId'', trim (MAILER_FORM_ID exampleConfig)),
            fieldPart (js ''m'', js ''x'')]] \<and>
   map (readBack (utf8 (makeBoundary exampleRuntime 0)))
     (requests (run exampleConfig exampleRuntime collidingUpload)) \<noteq>
     [Some (submittedParts exampleConfig collidingUpload)] \<and>
   wellFormed renamedUpload \<and> ready renamedUpload \<and>
   map (readBack (utf8 (makeBoundary exampleRuntime 0)))
     (requests (run exampleConfig exampleRuntime renamedUpload)) =
     [Some [fieldPart (js ''formId'', trim (MAILER_FORM_ID exampleConfig))]] \<and>
   map (readBack (utf8 (makeBoundary exampleRuntime 0)))
     (requests (run exampleConfig exampleRuntime renamedUpload)) \<noteq>
     [Some (submittedParts exampleConfig renamedUpload)] \<and>
   wellFormed inheritedUpload \<and> ready inheritedUpload \<and>
   map (readBack (utf8 (makeBoundary exampleRuntime 0)))
     (requests (run exampleConfig exampleRuntime inheritedUpload)) =
     [Some [fieldPart (js ''formId'', trim (MAILER_FORM_ID exampleConfig))]] \<and>
   map (readBack (utf8 (makeBoundary exampleRuntime 0)))
     (requests (run exampleConfig exampleRuntime inheritedUpload)) \<noteq>
     [Some (submittedParts exampleConfig inheritedUpload)]"
proof -
  have c: "[Some [fieldPart (js ''formId'', trim (MAILER_FORM_ID exampleConfig)),
                  fieldPart (js ''m'', js ''x'')]] \<noteq>
           [Some (submittedParts exampleConfig collidingUpload)]"
    using collidingUpload_submitted by simp
  have d: "[Some [fieldPart (js ''formId'', trim (MAILER_FORM_ID exampleConfig))]] \<noteq>
           [Some (submittedParts exampleConfig renamedUpload)]"
    by (simp add: renamedUpload_parts(2))
  have e: "[Some [fieldPart (js ''formId'', trim (MAILER_FORM_ID exampleConfig))]] \<noteq>
           [Some (submittedParts exampleConfig inheritedUpload)]"
    by (simp add: inheritedUpload_parts(2))
  show ?thesis
    unfolding quotedUpload_unreadable escapedUpload_unreadable collidingUpload_truncated
      renamedUpload_dropped inheritedUpload_dropped
    using one_field_uploads c d e by simp
qed

end
